theory Spec2Isabelle
  imports Complex_Main "HOL-Library.Sublist" "HOL-Library.AList" "HOL-Library.Monad_Syntax"
begin

section \<open>Python strings\<close>

text \<open>
  A Python \<open>str\<close> is modelled as a \<open>string\<close> holding its UTF-8 bytes. Every
  separator, prefix and suffix the converter looks for is ASCII, and no ASCII byte occurs
  inside a multi-byte UTF-8 sequence, so the operations below agree with Python's on code
  points.
\<close>

definition startswith :: "string \<Rightarrow> string \<Rightarrow> bool" where
  \<comment> \<open>\<open>s.startswith(p)\<close>\<close>
  "startswith s p = prefix p s"

definition endswith :: "string \<Rightarrow> string \<Rightarrow> bool" where
  \<comment> \<open>\<open>s.endswith(p)\<close>\<close>
  "endswith s p = suffix p s"

definition str_in :: "string \<Rightarrow> string \<Rightarrow> bool" where
  \<comment> \<open>\<open>sub in s\<close> on two strings: \<open>sub\<close> occurs in \<open>s\<close> as a contiguous run\<close>
  "str_in sub s = sublist sub s"

fun str_split :: "char \<Rightarrow> string \<Rightarrow> string list" where
  \<comment> \<open>\<open>s.split(c)\<close> for a separator of one character\<close>
  "str_split c [] = [[]]"
| "str_split c (x # xs) =
     (if x = c then [] # str_split c xs
      else (case str_split c xs of [] \<Rightarrow> [[x]] | w # ws \<Rightarrow> (x # w) # ws))"

definition rsplit1_head :: "char \<Rightarrow> string \<Rightarrow> string" where
  \<comment> \<open>\<open>s.rsplit(c, 1)[0]\<close>: what stands before the last \<open>c\<close>, or all of \<open>s\<close>\<close>
  "rsplit1_head c s =
     (if c \<in> set s then rev (tl (dropWhile (\<lambda>x. x \<noteq> c) (rev s))) else s)"

definition lstrip :: "char \<Rightarrow> string \<Rightarrow> string" where
  "lstrip c s = dropWhile (\<lambda>x. x = c) s"

definition rstrip :: "char \<Rightarrow> string \<Rightarrow> string" where
  "rstrip c s = rev (dropWhile (\<lambda>x. x = c) (rev s))"

definition strip :: "char \<Rightarrow> string \<Rightarrow> string" where
  "strip c s = rstrip c (lstrip c s)"

definition lower_chr :: "char \<Rightarrow> char" where
  "lower_chr c =
     (case map_of (zip ''ABCDEFGHIJKLMNOPQRSTUVWXYZ'' ''abcdefghijklmnopqrstuvwxyz'') c of
        None \<Rightarrow> c | Some l \<Rightarrow> l)"

definition lower :: "string \<Rightarrow> string" where
  \<comment> \<open>\<open>s.lower()\<close> where the result is compared with \<open>'true'\<close>: bytes outside
      \<open>A..Z\<close> are kept, and no character outside ASCII lowers to a letter of
      \<open>'true'\<close>\<close>
  "lower s = map lower_chr s"

function str_replace :: "string \<Rightarrow> string \<Rightarrow> string \<Rightarrow> string" where
  \<comment> \<open>\<open>s.replace(old, new)\<close>: every occurrence, left to right, without overlap\<close>
  "str_replace old new s =
     (if old = [] then new @ concat (map (\<lambda>c. c # new) s)
      else if s = [] then []
      else if prefix old s then new @ str_replace old new (drop (length old) s)
      else hd s # str_replace old new (tl s))"
  by pat_completeness auto
termination
  by (relation "measure (\<lambda>(old, new, s). length s)") auto

section \<open>The metadata document\<close>

text \<open>
  An \<open>xml.etree.ElementTree\<close> element: its tag (with the namespace in braces, as
  ElementTree stores it), its attributes and its child elements in document order.
\<close>

datatype element = Element (tag: string) (attrib: "(string \<times> string) list") (children: "element list")

fun descendants :: "element \<Rightarrow> element list" where
  \<comment> \<open>all elements beneath \<open>e\<close>, \<open>e\<close> itself excluded, in document order\<close>
  "descendants (Element t a cs) = concat (map (\<lambda>c. c # descendants c) cs)"

definition edm :: "string \<Rightarrow> string" where
  \<comment> \<open>the name \<open>edm:n\<close> under the \<open>namespaces\<close> dictionary of the source\<close>
  "edm n = ''{http://docs.oasis-open.org/odata/ns/edm}'' @ n"

definition findall :: "string \<Rightarrow> element \<Rightarrow> element list" where
  \<comment> \<open>\<open>e.findall('.//t')\<close>\<close>
  "findall t e = filter (\<lambda>d. tag d = t) (descendants e)"

definition find_property_value :: "string \<Rightarrow> element \<Rightarrow> element option" where
  \<comment> \<open>\<open>e.find('.//edm:PropertyValue[@Property="p"]')\<close>\<close>
  "find_property_value p e =
     List.find (\<lambda>d. tag d = edm ''PropertyValue'' \<and> map_of (attrib d) ''Property'' = Some p)
       (descendants e)"

definition get_attr :: "element \<Rightarrow> string \<Rightarrow> string \<Rightarrow> string" where
  \<comment> \<open>\<open>e.get(key, default)\<close>\<close>
  "get_attr e k d = (case map_of (attrib e) k of None \<Rightarrow> d | Some v \<Rightarrow> v)"

section \<open>Capability records and the converter's state\<close>

record capabilities =
  insertable :: bool
  updatable :: bool
  deletable :: bool

definition all_allowed :: "capabilities \<Rightarrow> bool" where
  \<comment> \<open>\<open>all(capabilities.values())\<close>\<close>
  "all_allowed c = (insertable c \<and> updatable c \<and> deletable c)"

text \<open>
  The two dictionaries of the converter object. A Python dictionary keeps its keys in
  insertion order, and the override pass of the enforcement depends on that order, so
  both are association lists; \<open>AList.update\<close> is \<open>d[k] = v\<close> (a known key keeps its
  place, a new key goes last).
\<close>

record converter =
  edmx_capabilities :: "(string \<times> capabilities) list"
  entity_type_capabilities :: "(string \<times> capabilities) list"

definition init :: converter where
  "init = \<lparr>edmx_capabilities = [], entity_type_capabilities = []\<rparr>"

text \<open>The lines the extractor prints, with the values it formats into them.\<close>

datatype message =
  Warning string
| Restrictions string string "string list"
| Parsed nat

section \<open>Capability extractor\<close>

definition bool_attribute :: "element \<Rightarrow> bool" where
  \<comment> \<open>\<open>prop.get('Bool', 'true').lower() == 'true'\<close>\<close>
  "bool_attribute pv = (lower (get_attr pv ''Bool'' ''true'') = ''true'')"

definition apply_annotation :: "element \<Rightarrow> capabilities \<Rightarrow> capabilities" where
  \<comment> \<open>the body of the loop over the annotations of one entity set\<close>
  "apply_annotation a caps =
     (let trm = get_attr a ''Term'' '''' in
      if str_in ''InsertRestrictions'' trm then
        (case find_property_value ''Insertable'' a of
           None \<Rightarrow> caps
         | Some pv \<Rightarrow> caps\<lparr>insertable := bool_attribute pv\<rparr>)
      else if str_in ''UpdateRestrictions'' trm then
        (case find_property_value ''Updatable'' a of
           None \<Rightarrow> caps
         | Some pv \<Rightarrow> caps\<lparr>updatable := bool_attribute pv\<rparr>)
      else if str_in ''DeleteRestrictions'' trm then
        (case find_property_value ''Deletable'' a of
           None \<Rightarrow> caps
         | Some pv \<Rightarrow> caps\<lparr>deletable := bool_attribute pv\<rparr>)
      else caps)"

definition entity_set_capabilities :: "element \<Rightarrow> capabilities" where
  \<comment> \<open>the record built for one entity set: all true, then every nested annotation\<close>
  "entity_set_capabilities es =
     fold apply_annotation (findall (edm ''Annotation'') es)
       \<lparr>insertable = True, updatable = True, deletable = True\<rparr>"

definition entity_type_name_of :: "string \<Rightarrow> string" where
  \<comment> \<open>\<open>entity_type.split('.')[-1] if '.' in entity_type else entity_type\<close>\<close>
  "entity_type_name_of t = (if CHR ''.'' \<in> set t then last (str_split CHR ''.'' t) else t)"

definition restricted_ops :: "capabilities \<Rightarrow> string list" where
  "restricted_ops c =
     map fst (filter (\<lambda>(op, allowed). \<not> allowed)
       [(''insertable'', insertable c), (''updatable'', updatable c), (''deletable'', deletable c)])"

definition process_entity_set :: "element \<Rightarrow> converter \<times> message list \<Rightarrow> converter \<times> message list" where
  \<comment> \<open>the body of the loop over the entity sets; the local dictionary
      \<open>entity_set_to_type\<close> is written and never read\<close>
  "process_entity_set es = (\<lambda>(self, out).
     (case (map_of (attrib es) ''Name'', map_of (attrib es) ''EntityType'') of
        (Some entity_set_name, Some entity_type) \<Rightarrow>
          if entity_set_name = [] \<or> entity_type = [] then (self, out)
          else
            let entity_type_name = entity_type_name_of entity_type;
                caps = entity_set_capabilities es
            in (self\<lparr>edmx_capabilities := AList.update entity_set_name caps (edmx_capabilities self),
                     entity_type_capabilities :=
                       AList.update entity_type_name caps (entity_type_capabilities self)\<rparr>,
                out @ (if \<not> all_allowed caps
                       then [Restrictions entity_set_name entity_type_name (restricted_ops caps)]
                       else []))
      | _ \<Rightarrow> (self, out)))"

definition parse_edmx_capabilities :: "converter \<Rightarrow> string + element \<Rightarrow> converter \<times> message list" where
  \<comment> \<open>\<open>_parse_edmx_capabilities\<close>. The argument is what \<open>ET.parse(edmx_file).getroot()\<close>
      gives: \<open>Inr doc\<close> with the root element \<open>doc\<close>, or \<open>Inl e\<close> when it raises the exception \<open>e\<close>. The result is the
      converter afterwards and the lines printed.\<close>
  "parse_edmx_capabilities self parsed =
     (case parsed of
        Inl e \<Rightarrow> (self, [Warning e])
      | Inr doc \<Rightarrow>
          (let (self', out) = fold process_entity_set (findall (edm ''EntitySet'') doc) (self, [])
           in (self', out @ [Parsed (length (edmx_capabilities self'))])))"

section \<open>JSON documents and Python's operations on them\<close>

text \<open>
  What \<open>json.load\<close> returns: \<open>None\<close>, a \<open>bool\<close>, an \<open>int\<close>, a \<open>float\<close>, a
  \<open>str\<close>, a \<open>list\<close> or a \<open>dict\<close> with string keys. A dictionary is the list of its
  items in insertion order. The converter never computes with a number.
\<close>

datatype json =
  JNull
| JBool bool
| JInt int
| JFloat real
| JStr string
| JArr "json list"
| JObj "(string \<times> json) list"

text \<open>
  The converter mutates the document in place; the model passes the document through and
  writes every changed part back. Each operation returns \<open>None\<close> where Python raises
  (\<open>TypeError\<close>, \<open>AttributeError\<close>, \<open>KeyError\<close>): the exception leaves
  \<open>_enhance_openapi_spec\<close>, and no output document is written.
\<close>

definition py_in :: "string \<Rightarrow> json \<Rightarrow> bool option" where
  \<comment> \<open>\<open>k in obj\<close> for a string \<open>k\<close>: a key of a dictionary, an element of a list, a
      substring of a string; a \<open>TypeError\<close> on anything else\<close>
  "py_in k obj =
     (case obj of
        JObj kvs \<Rightarrow> Some (k \<in> set (map fst kvs))
      | JArr xs \<Rightarrow> Some (JStr k \<in> set xs)
      | JStr s \<Rightarrow> Some (str_in k s)
      | _ \<Rightarrow> None)"

definition getitem :: "json \<Rightarrow> string \<Rightarrow> json option" where
  \<comment> \<open>\<open>obj[k]\<close> for a string \<open>k\<close>\<close>
  "getitem obj k = (case obj of JObj kvs \<Rightarrow> map_of kvs k | _ \<Rightarrow> None)"

definition setitem :: "json \<Rightarrow> string \<Rightarrow> json \<Rightarrow> json option" where
  \<comment> \<open>\<open>obj[k] = v\<close> for a string \<open>k\<close>\<close>
  "setitem obj k v = (case obj of JObj kvs \<Rightarrow> Some (JObj (AList.update k v kvs)) | _ \<Rightarrow> None)"

definition delitem :: "json \<Rightarrow> string \<Rightarrow> json option" where
  \<comment> \<open>\<open>del obj[k]\<close> for a string \<open>k\<close>\<close>
  "delitem obj k =
     (case obj of
        JObj kvs \<Rightarrow> if k \<in> set (map fst kvs) then Some (JObj (AList.delete k kvs)) else None
      | _ \<Rightarrow> None)"

definition items :: "json \<Rightarrow> (string \<times> json) list option" where
  \<comment> \<open>\<open>obj.items()\<close>; \<open>obj.keys()\<close> is its first components\<close>
  "items obj = (case obj of JObj kvs \<Rightarrow> Some kvs | _ \<Rightarrow> None)"

definition list_append :: "json \<Rightarrow> json \<Rightarrow> json option" where
  \<comment> \<open>\<open>obj.append(v)\<close>\<close>
  "list_append obj v = (case obj of JArr xs \<Rightarrow> Some (JArr (xs @ [v])) | _ \<Rightarrow> None)"

definition py_iter :: "json \<Rightarrow> json list option" where
  \<comment> \<open>what \<open>for x in obj\<close> runs over: the keys of a dictionary, the elements of a list,
      the characters of a string (here its bytes); \<open>len(obj)\<close> raises on the same values\<close>
  "py_iter obj =
     (case obj of
        JObj kvs \<Rightarrow> Some (map (\<lambda>(k, v). JStr k) kvs)
      | JArr xs \<Rightarrow> Some xs
      | JStr s \<Rightarrow> Some (map (\<lambda>c. JStr [c]) s)
      | _ \<Rightarrow> None)"

definition str_of :: "json \<Rightarrow> string option" where
  \<comment> \<open>the receiver of a string method: an \<open>AttributeError\<close> on anything but a string\<close>
  "str_of x = (case x of JStr s \<Rightarrow> Some s | _ \<Rightarrow> None)"

definition truthy :: "json \<Rightarrow> bool" where
  \<comment> \<open>\<open>if x:\<close>\<close>
  "truthy x =
     (case x of
        JNull \<Rightarrow> False
      | JBool b \<Rightarrow> b
      | JInt i \<Rightarrow> i \<noteq> 0
      | JFloat r \<Rightarrow> r \<noteq> 0
      | JStr s \<Rightarrow> s \<noteq> []
      | JArr xs \<Rightarrow> xs \<noteq> []
      | JObj kvs \<Rightarrow> kvs \<noteq> [])"

fun foldM :: "('a \<Rightarrow> 'b \<Rightarrow> 'b option) \<Rightarrow> 'a list \<Rightarrow> 'b \<Rightarrow> 'b option" where
  \<comment> \<open>a \<open>for\<close> loop whose body may raise: the first exception ends it\<close>
  "foldM f [] s = Some s"
| "foldM f (x # xs) s = (case f x s of None \<Rightarrow> None | Some s' \<Rightarrow> foldM f xs s')"

section \<open>Parameter injection\<close>

definition company_parameter :: json where
  "company_parameter =
     JObj [(''in'', JStr ''query''),
           (''name'', JStr ''company''),
           (''description'', JStr ''The company name to which the request is directed.''),
           (''required'', JBool True),
           (''schema'', JObj [(''type'', JStr ''string''), (''maxLength'', JInt 100)])]"

definition company_ref :: json where
  "company_ref = JObj [(''$ref'', JStr ''#/components/parameters/company'')]"

definition company_skipped_prefixes :: "string list" where
  "company_skipped_prefixes =
     [''/$batch'', ''/apicategoryroutes'', ''/companies'', ''/entitydefinitions'',
      ''/externalbusinesseventdefinitions'', ''/externaleventsubscriptions'',
      ''/subscriptions'', ''/entityDefinitions'']"

definition company_skipped :: "string \<Rightarrow> bool" where
  \<comment> \<open>\<open>any(path_name.startswith(prefix) for prefix in [...])\<close>\<close>
  "company_skipped path_name = list_ex (startswith path_name) company_skipped_prefixes"

definition add_company_to_path :: "json \<Rightarrow> json option" where
  \<comment> \<open>what the loop does to the item \<open>values\<close> of a path that is not skipped\<close>
  "add_company_to_path values = do {
     has \<leftarrow> py_in ''parameters'' values;
     values1 \<leftarrow> (if \<not> has then setitem values ''parameters'' (JArr []) else Some values);
     ps \<leftarrow> getitem values1 ''parameters'';
     ps' \<leftarrow> list_append ps company_ref;
     setitem values1 ''parameters'' ps'
   }"

definition company_path_step ::
  "string \<times> json \<Rightarrow> (string \<times> json) list \<Rightarrow> (string \<times> json) list option" where
  \<comment> \<open>the body of the loop over \<open>spec['paths'].items()\<close>, on \<open>new_paths\<close>\<close>
  "company_path_step = (\<lambda>(path_name, values) new_paths. do {
     values' \<leftarrow> (if \<not> company_skipped path_name then add_company_to_path values else Some values);
     Some (AList.update path_name values' new_paths)
   })"

definition define_company_parameter :: "json \<Rightarrow> json option" where
  \<comment> \<open>the first half of \<open>_add_company_parameter\<close>: the shared parameter under
      \<open>components/parameters\<close>\<close>
  "define_company_parameter spec = do {
     components \<leftarrow> getitem spec ''components'';
     has \<leftarrow> py_in ''parameters'' components;
     components1 \<leftarrow> (if \<not> has then setitem components ''parameters'' (JObj []) else Some components);
     parameters \<leftarrow> getitem components1 ''parameters'';
     parameters' \<leftarrow> setitem parameters ''company'' company_parameter;
     components2 \<leftarrow> setitem components1 ''parameters'' parameters';
     setitem spec ''components'' components2
   }"

definition add_company_to_paths :: "json \<Rightarrow> json option" where
  \<comment> \<open>the second half of \<open>_add_company_parameter\<close>: the reference in the paths\<close>
  "add_company_to_paths spec = do {
     has_paths \<leftarrow> py_in ''paths'' spec;
     if \<not> has_paths then Some spec
     else do {
       paths \<leftarrow> getitem spec ''paths'';
       path_items \<leftarrow> items paths;
       new_paths \<leftarrow> foldM company_path_step path_items [];
       setitem spec ''paths'' (JObj new_paths)
     }
   }"

definition add_company_parameter :: "json \<Rightarrow> json option" where
  \<comment> \<open>\<open>_add_company_parameter\<close>\<close>
  "add_company_parameter spec = do {
     spec1 \<leftarrow> define_company_parameter spec;
     add_company_to_paths spec1
   }"

section \<open>Path pruning\<close>

definition system_prefixes :: "string list" where
  "system_prefixes =
     [''/$batch'', ''/apicategoryroutes'', ''/entitydefinitions'',
      ''/externalbusinesseventdefinitions'', ''/externaleventsubscriptions'',
      ''/subscriptions'', ''/entityDefinitions'']"

definition is_system_endpoint :: "string \<Rightarrow> bool" where
  "is_system_endpoint path_name =
     (list_ex (\<lambda>p. path_name = p \<or> startswith path_name (p @ ''('')) system_prefixes
      \<or> path_name = ''/companies'' \<or> path_name = ''/companies({id})'')"

definition parenthesized :: "string \<Rightarrow> bool" where
  \<comment> \<open>\<open>level.startswith('(') and level.endswith(')')\<close>\<close>
  "parenthesized level = (startswith level ''('' \<and> endswith level '')'')"

definition navigation_levels :: "string list \<Rightarrow> bool" where
  \<comment> \<open>the test both branches make on the list of the levels of a path\<close>
  "navigation_levels levels =
     (if length levels > 2 then True
      else if length levels = 2 then \<not> parenthesized (levels ! 1)
      else False)"

definition is_navigation_path :: "string \<Rightarrow> bool" where
  \<comment> \<open>whether the first loop of \<open>_remove_navigation_paths\<close> puts \<open>path_name\<close> on
      \<open>paths_to_remove\<close>\<close>
  "is_navigation_path path_name =
     (if is_system_endpoint path_name then False
      else if startswith path_name ''/companies({id})/'' then
        navigation_levels (filter (\<lambda>level. level \<noteq> []) (str_split CHR ''/'' (drop 17 path_name)))
      else if \<not> startswith path_name ''/companies'' then
        navigation_levels (str_split CHR ''/'' (strip CHR ''/'' path_name))
      else False)"

definition remove_path :: "string \<Rightarrow> json \<Rightarrow> json option" where
  \<comment> \<open>the body of the second loop: \<open>if path_name in paths: del paths[path_name]\<close>\<close>
  "remove_path path_name paths = do {
     present \<leftarrow> py_in path_name paths;
     if present then delitem paths path_name else Some paths
   }"

definition remove_navigation_paths :: "json \<Rightarrow> json option" where
  \<comment> \<open>\<open>_remove_navigation_paths\<close>\<close>
  "remove_navigation_paths spec = do {
     has_paths \<leftarrow> py_in ''paths'' spec;
     if \<not> has_paths then Some spec
     else do {
       paths \<leftarrow> getitem spec ''paths'';
       names \<leftarrow> py_iter paths;
       path_names \<leftarrow> those (map str_of names);
       paths' \<leftarrow> foldM remove_path (filter is_navigation_path path_names) paths;
       setitem spec ''paths'' paths'
     }
   }"

section \<open>Field scrubber\<close>

definition system_fields :: "string list" where
  "system_fields = [''systemCreatedAt'', ''systemCreatedBy'', ''systemModifiedAt'', ''systemModifiedBy'']"

definition field_to_remove :: "json \<Rightarrow> string list option" where
  \<comment> \<open>\<open>if field_name in system_fields: fields_to_remove.append(field_name)\<close>, for one
      \<open>field_name\<close>; a list or a dictionary cannot be hashed\<close>
  "field_to_remove field_name =
     (case field_name of
        JStr s \<Rightarrow> Some (if s \<in> set system_fields then [s] else [])
      | JArr xs \<Rightarrow> None
      | JObj kvs \<Rightarrow> None
      | _ \<Rightarrow> Some [])"

definition scrub_properties :: "json \<Rightarrow> json option" where
  "scrub_properties properties = do {
     names \<leftarrow> py_iter properties;
     fields \<leftarrow> those (map field_to_remove names);
     foldM (\<lambda>field_name props. delitem props field_name) (concat fields) properties
   }"

definition scrub_schema :: "string \<times> json \<Rightarrow> (string \<times> json) option" where
  \<comment> \<open>the body of the loop over \<open>spec['components']['schemas'].items()\<close>\<close>
  "scrub_schema = (\<lambda>(schema_name, schema_def).
     if \<not> (endswith schema_name ''-create'' \<or> endswith schema_name ''-update'')
     then Some (schema_name, schema_def)
     else (case schema_def of
             JObj kvs \<Rightarrow>
               if ''properties'' \<notin> set (map fst kvs) then Some (schema_name, schema_def)
               else do {
                 properties \<leftarrow> getitem schema_def ''properties'';
                 properties' \<leftarrow> scrub_properties properties;
                 schema_def' \<leftarrow> setitem schema_def ''properties'' properties';
                 Some (schema_name, schema_def')
               }
           | _ \<Rightarrow> Some (schema_name, schema_def)))"

definition remove_system_fields_from_mutation_schemas :: "json \<Rightarrow> json option" where
  \<comment> \<open>\<open>_remove_system_fields_from_mutation_schemas\<close>\<close>
  "remove_system_fields_from_mutation_schemas spec = do {
     has_components \<leftarrow> py_in ''components'' spec;
     if \<not> has_components then Some spec
     else do {
       components \<leftarrow> getitem spec ''components'';
       has_schemas \<leftarrow> py_in ''schemas'' components;
       if \<not> has_schemas then Some spec
       else do {
         schemas \<leftarrow> getitem components ''schemas'';
         schema_items \<leftarrow> items schemas;
         schema_items' \<leftarrow> those (map scrub_schema schema_items);
         components' \<leftarrow> setitem components ''schemas'' (JObj schema_items');
         setitem spec ''components'' components'
       }
     }
   }"

section \<open>Capability enforcement\<close>

definition strip_key :: "string \<Rightarrow> string" where
  \<comment> \<open>\<open>if '(' in part: part = part.split('(')[0]\<close>\<close>
  "strip_key part =
     (if CHR ''('' \<in> set part
      then (case str_split CHR ''('' part of [] \<Rightarrow> [] | w # ws \<Rightarrow> w)
      else part)"

definition extract_entity_set_from_path :: "string \<Rightarrow> string option" where
  \<comment> \<open>\<open>_extract_entity_set_from_path\<close>; the result \<open>None\<close> is Python's \<open>None\<close>\<close>
  "extract_entity_set_from_path path =
     (let path_clean = lstrip CHR ''/'' path in
      if startswith path_clean ''companies('' then
        (let parts = str_split CHR ''/'' path_clean in
         if length parts \<ge> 2 then Some (strip_key (parts ! 1)) else None)
      else
        (let parts = str_split CHR ''/'' path_clean in
         if parts \<noteq> [] then Some (strip_key (parts ! 0)) else None))"

definition extract_schema_ref_from_responses :: "json \<Rightarrow> json option" where
  \<comment> \<open>\<open>_extract_schema_ref_from_responses\<close>; Python's \<open>None\<close> is \<open>JNull\<close>\<close>
  "extract_schema_ref_from_responses responses = do {
     has200 \<leftarrow> py_in ''200'' responses;
     if \<not> has200 then Some JNull
     else do {
       r200 \<leftarrow> getitem responses ''200'';
       has_content \<leftarrow> py_in ''content'' r200;
       if \<not> has_content then Some JNull
       else do {
         content \<leftarrow> getitem r200 ''content'';
         has_json \<leftarrow> py_in ''application/json'' content;
         if \<not> has_json then Some JNull
         else do {
           media \<leftarrow> getitem content ''application/json'';
           has_schema \<leftarrow> py_in ''schema'' media;
           if \<not> has_schema then Some JNull
           else do {
             schema \<leftarrow> getitem media ''schema'';
             has_ref \<leftarrow> py_in ''$ref'' schema;
             if has_ref then getitem schema ''$ref'' else Some JNull
           }
         }
       }
     }
   }"

definition extract_schema_ref_from_request_body :: "json \<Rightarrow> json option" where
  \<comment> \<open>\<open>_extract_schema_ref_from_request_body\<close>; Python's \<open>None\<close> is \<open>JNull\<close>\<close>
  "extract_schema_ref_from_request_body request_body = do {
     has_content \<leftarrow> py_in ''content'' request_body;
     if \<not> has_content then Some JNull
     else do {
       content \<leftarrow> getitem request_body ''content'';
       has_json \<leftarrow> py_in ''application/json'' content;
       if \<not> has_json then Some JNull
       else do {
         media \<leftarrow> getitem content ''application/json'';
         has_schema \<leftarrow> py_in ''schema'' media;
         if \<not> has_schema then Some JNull
         else do {
           schema \<leftarrow> getitem media ''schema'';
           has_ref \<leftarrow> py_in ''$ref'' schema;
           if has_ref then getitem schema ''$ref'' else Some JNull
         }
       }
     }
   }"

definition schema_ref_to_entity_type :: "json \<Rightarrow> string option option" where
  \<comment> \<open>\<open>_schema_ref_to_entity_type\<close>: the outer \<open>None\<close> is an exception (the reference
      is no string), \<open>Some None\<close> is Python's \<open>None\<close>\<close>
  "schema_ref_to_entity_type schema_ref = do {
     r \<leftarrow> str_of schema_ref;
     if \<not> startswith r ''#/components/schemas/'' then Some None
     else
       (let schema_name = str_replace ''#/components/schemas/'' [] r in
        if startswith schema_name ''Microsoft.NAV.'' then
          (let entity_type = str_replace ''Microsoft.NAV.'' [] schema_name in
           Some (Some (if endswith entity_type ''-create'' \<or> endswith entity_type ''-update''
                       then rsplit1_head CHR ''-'' entity_type else entity_type)))
        else Some None)
   }"

definition entity_type_of_ref :: "json \<Rightarrow> string option option" where
  \<comment> \<open>\<open>if schema_ref: entity_type = ...; if entity_type: return entity_type\<close>;
      \<open>Some None\<close> when the loop goes on\<close>
  "entity_type_of_ref schema_ref =
     (if truthy schema_ref then do {
        entity_type \<leftarrow> schema_ref_to_entity_type schema_ref;
        Some (case entity_type of None \<Rightarrow> None | Some t \<Rightarrow> if t \<noteq> [] then Some t else None)
      } else Some None)"

definition method_entity_type :: "string \<Rightarrow> json \<Rightarrow> string option option" where
  \<comment> \<open>the body of the loop over \<open>['get', 'patch']\<close>: \<open>Some (Some t)\<close> returns \<open>t\<close>,
      \<open>Some None\<close> goes on with the loop\<close>
  "method_entity_type method_name path_obj = do {
     has \<leftarrow> py_in method_name path_obj;
     if \<not> has then Some None
     else do {
       method_obj \<leftarrow> getitem path_obj method_name;
       if method_name = ''get'' then do {
         has_responses \<leftarrow> py_in ''responses'' method_obj;
         if has_responses then do {
           responses \<leftarrow> getitem method_obj ''responses'';
           schema_ref \<leftarrow> extract_schema_ref_from_responses responses;
           entity_type_of_ref schema_ref
         } else Some None
       }
       else if method_name = ''patch'' then do {
         has_body \<leftarrow> py_in ''requestBody'' method_obj;
         if has_body then do {
           request_body \<leftarrow> getitem method_obj ''requestBody'';
           schema_ref \<leftarrow> extract_schema_ref_from_request_body request_body;
           entity_type_of_ref schema_ref
         } else Some None
       }
       else Some None
     }
   }"

definition extract_entity_type_from_path_methods :: "json \<Rightarrow> string option option" where
  \<comment> \<open>\<open>_extract_entity_type_from_path_methods\<close>, without its unused parameter \<open>spec\<close>\<close>
  "extract_entity_type_from_path_methods path_obj = do {
     r \<leftarrow> method_entity_type ''get'' path_obj;
     (case r of Some t \<Rightarrow> Some (Some t) | None \<Rightarrow> method_entity_type ''patch'' path_obj)
   }"

definition lookup_named :: "(string \<times> capabilities) list \<Rightarrow> string option \<Rightarrow> capabilities option" where
  \<comment> \<open>\<open>d[name]\<close> under the guard \<open>name and name in d\<close>\<close>
  "lookup_named d name = (case name of None \<Rightarrow> None | Some n \<Rightarrow> if n \<noteq> [] then map_of d n else None)"

definition last_segment_of :: "string \<Rightarrow> string" where
  \<comment> \<open>the last segment of the path, without its key\<close>
  "last_segment_of path = strip_key (last (str_split CHR ''/'' (rstrip CHR ''/'' path)))"

definition resolved_capabilities :: "converter \<Rightarrow> string \<Rightarrow> json \<Rightarrow> capabilities option option" where
  \<comment> \<open>the three steps that set \<open>capabilities\<close> before the override pass\<close>
  "resolved_capabilities self path path_obj =
     (case lookup_named (edmx_capabilities self) (extract_entity_set_from_path path) of
        Some c \<Rightarrow> Some (Some c)
      | None \<Rightarrow> do {
          entity_type_name \<leftarrow> extract_entity_type_from_path_methods path_obj;
          (case lookup_named (entity_type_capabilities self) entity_type_name of
             Some c \<Rightarrow> Some (Some c)
           | None \<Rightarrow> Some (map_of (entity_type_capabilities self) (last_segment_of path)))
        })"

definition override_capabilities :: "converter \<Rightarrow> string \<Rightarrow> capabilities option" where
  \<comment> \<open>the override pass: the first entity type, in the order of the dictionary, with a
      restriction and with \<open>'/' + name\<close> in the path\<close>
  "override_capabilities self path =
     map_option snd
       (List.find (\<lambda>(entity_type_name, entity_capabilities).
            str_in (''/'' @ entity_type_name) path \<and> \<not> all_allowed entity_capabilities)
          (entity_type_capabilities self))"

definition path_capabilities :: "converter \<Rightarrow> string \<Rightarrow> json \<Rightarrow> capabilities option option" where
  \<comment> \<open>\<open>capabilities\<close> when the removals start\<close>
  "path_capabilities self path path_obj = do {
     resolved \<leftarrow> resolved_capabilities self path path_obj;
     Some (case override_capabilities self path of Some c \<Rightarrow> Some c | None \<Rightarrow> resolved)
   }"

definition remove_method :: "bool \<Rightarrow> string \<Rightarrow> json \<Rightarrow> json option" where
  \<comment> \<open>\<open>if not allowed and m in path_obj: del path_obj[m]\<close>\<close>
  "remove_method allowed m path_obj =
     (if \<not> allowed then do {
        has \<leftarrow> py_in m path_obj;
        if has then delitem path_obj m else Some path_obj
      } else Some path_obj)"

definition remove_disallowed :: "capabilities \<Rightarrow> json \<Rightarrow> json option" where
  \<comment> \<open>the three removals under \<open>if capabilities:\<close>\<close>
  "remove_disallowed c path_obj = do {
     o1 \<leftarrow> remove_method (insertable c) ''post'' path_obj;
     o2 \<leftarrow> remove_method (updatable c) ''patch'' o1;
     remove_method (deletable c) ''delete'' o2
   }"

definition enforce_path :: "converter \<Rightarrow> string \<times> json \<Rightarrow> (string \<times> json) option" where
  \<comment> \<open>the body of the loop over \<open>spec['paths'].items()\<close>\<close>
  "enforce_path self = (\<lambda>(path, path_obj). do {
     capabilities \<leftarrow> path_capabilities self path path_obj;
     (case capabilities of
        None \<Rightarrow> Some (path, path_obj)
      | Some c \<Rightarrow> map_option (Pair path) (remove_disallowed c path_obj))
   })"

definition enforce_edmx_capabilities :: "converter \<Rightarrow> json \<Rightarrow> json option" where
  \<comment> \<open>\<open>_enforce_edmx_capabilities\<close>\<close>
  "enforce_edmx_capabilities self spec = do {
     has_paths \<leftarrow> py_in ''paths'' spec;
     if \<not> has_paths \<or> edmx_capabilities self = [] then Some spec
     else do {
       paths \<leftarrow> getitem spec ''paths'';
       path_items \<leftarrow> items paths;
       path_items' \<leftarrow> those (map (enforce_path self) path_items);
       setitem spec ''paths'' (JObj path_items')
     }
   }"

section \<open>Schema pruning\<close>

definition schema_ref_target :: "string \<Rightarrow> json \<Rightarrow> string option" where
  \<comment> \<open>the name \<open>extract_schema_refs\<close> adds for the item \<open>key: value\<close> of a dictionary,
      if it adds one\<close>
  "schema_ref_target k v =
     (case v of
        JStr s \<Rightarrow>
          if k = ''$ref'' \<and> startswith s ''#/components/schemas/''
          then Some (str_replace ''#/components/schemas/'' [] s) else None
      | _ \<Rightarrow> None)"

fun extract_schema_refs :: "json \<Rightarrow> string set" where
  \<comment> \<open>the local function \<open>extract_schema_refs\<close>\<close>
  "extract_schema_refs (JObj kvs) =
     (\<Union>(k, v) \<in> set kvs.
        (case schema_ref_target k v of Some n \<Rightarrow> {n} | None \<Rightarrow> extract_schema_refs v))"
| "extract_schema_refs (JArr xs) = (\<Union>x \<in> set xs. extract_schema_refs x)"
| "extract_schema_refs _ = {}"

definition method_refs :: "string \<Rightarrow> json \<Rightarrow> string set option" where
  \<comment> \<open>\<open>if m in path_obj: refs = extract_schema_refs(path_obj[m])\<close>\<close>
  "method_refs m path_obj = do {
     has \<leftarrow> py_in m path_obj;
     if has then do { body \<leftarrow> getitem path_obj m; Some (extract_schema_refs body) }
     else Some {}
   }"

definition schemas_used_by :: "string \<Rightarrow> (string \<times> json) list \<Rightarrow> string set option" where
  \<comment> \<open>\<open>schemas_used_by_post\<close> and \<open>schemas_used_by_patch\<close> after the loop over the paths\<close>
  "schemas_used_by m path_items = do {
     refs \<leftarrow> those (map (\<lambda>(path, path_obj). method_refs m path_obj) path_items);
     Some (\<Union> (set refs))
   }"

definition strip_nav :: "string \<Rightarrow> string" where
  \<comment> \<open>\<open>if base_name.startswith('Microsoft.NAV.'): base_name = base_name[len('Microsoft.NAV.'):]\<close>\<close>
  "strip_nav base_name = (if startswith base_name ''Microsoft.NAV.'' then drop 14 base_name else base_name)"

definition capability_based_removal :: "converter \<Rightarrow> string \<Rightarrow> (capabilities \<Rightarrow> bool) \<Rightarrow> string \<Rightarrow> bool" where
  \<comment> \<open>whether the loop over \<open>create_schemas\<close> (\<open>suf = '-create'\<close>, \<open>flag = insertable\<close>)
      or \<open>update_schemas\<close> puts \<open>schema\<close> on \<open>capability_based_removals\<close>\<close>
  "capability_based_removal self suf flag schema =
     (case map_of (entity_type_capabilities self) (strip_nav (str_replace suf [] schema)) of
        None \<Rightarrow> False
      | Some c \<Rightarrow> \<not> flag c)"

definition force_remove :: "converter \<Rightarrow> string \<Rightarrow> bool" where
  \<comment> \<open>whether the last loop puts \<open>schema_name\<close> on \<open>force_remove_schemas\<close>; both
      suffixes have seven characters\<close>
  "force_remove self schema_name =
     (if startswith schema_name ''Microsoft.NAV.''
         \<and> (endswith schema_name ''-create'' \<or> endswith schema_name ''-update'')
      then
        (let entity_type = drop 14 (take (length schema_name - 7) schema_name) in
         case map_of (entity_type_capabilities self) entity_type of
           None \<Rightarrow> False
         | Some c \<Rightarrow>
             if endswith schema_name ''-create'' \<and> \<not> insertable c then True
             else if endswith schema_name ''-update'' \<and> \<not> updatable c then True
             else False)
      else False)"

definition all_schemas_to_remove ::
  "converter \<Rightarrow> string set \<Rightarrow> string set \<Rightarrow> string list \<Rightarrow> string set" where
  \<comment> \<open>the set \<open>all_schemas_to_remove\<close>, from the two sets of referenced names and the
      list \<open>all_schemas\<close> of the keys of \<open>spec['components']['schemas']\<close>\<close>
  "all_schemas_to_remove self schemas_used_by_post schemas_used_by_patch all_schemas =
     (let create_schemas = filter (\<lambda>s. endswith s ''-create'') all_schemas;
          update_schemas = filter (\<lambda>s. endswith s ''-update'') all_schemas;
          unused_create_schemas = filter (\<lambda>s. s \<notin> schemas_used_by_post) create_schemas;
          unused_update_schemas = filter (\<lambda>s. s \<notin> schemas_used_by_patch) update_schemas;
          capability_based_removals =
            filter (capability_based_removal self ''-create'' insertable) create_schemas
            @ filter (capability_based_removal self ''-update'' updatable) update_schemas;
          force_remove_schemas = filter (force_remove self) all_schemas
      in set (unused_create_schemas @ unused_update_schemas @ capability_based_removals)
         \<union> set force_remove_schemas)"

definition remove_unused_schema_variants :: "converter \<Rightarrow> json \<Rightarrow> json option" where
  \<comment> \<open>\<open>_remove_unused_schema_variants\<close>. The last loop deletes every member of the set
      \<open>all_schemas_to_remove\<close> that is a key: the items of the other keys stay, in order.\<close>
  "remove_unused_schema_variants self spec = do {
     has_paths \<leftarrow> py_in ''paths'' spec;
     if \<not> has_paths then Some spec
     else do {
       has_components \<leftarrow> py_in ''components'' spec;
       if \<not> has_components then Some spec
       else do {
         components \<leftarrow> getitem spec ''components'';
         has_schemas \<leftarrow> py_in ''schemas'' components;
         if \<not> has_schemas then Some spec
         else do {
           paths \<leftarrow> getitem spec ''paths'';
           path_items \<leftarrow> items paths;
           schemas_used_by_post \<leftarrow> schemas_used_by ''post'' path_items;
           schemas_used_by_patch \<leftarrow> schemas_used_by ''patch'' path_items;
           schemas \<leftarrow> getitem components ''schemas'';
           schema_items \<leftarrow> items schemas;
           components' \<leftarrow> setitem components ''schemas''
             (JObj (filter (\<lambda>(name, body). name \<notin> all_schemas_to_remove self
                       schemas_used_by_post schemas_used_by_patch (map fst schema_items))
                     schema_items));
           setitem spec ''components'' components'
         }
       }
     }
   }"

section \<open>The enhancement pipeline\<close>

definition py_or :: "string option \<Rightarrow> string \<Rightarrow> string" where
  \<comment> \<open>\<open>x or d\<close> for \<open>x\<close> a string or \<open>None\<close>\<close>
  "py_or x d = (case x of None \<Rightarrow> d | Some s \<Rightarrow> if s \<noteq> [] then s else d)"

definition py_format :: "string option \<Rightarrow> string" where
  \<comment> \<open>how an f-string prints a string or \<open>None\<close>\<close>
  "py_format x = (case x of None \<Rightarrow> ''None'' | Some s \<Rightarrow> s)"

definition build_enhanced_info_section ::
  "(string \<Rightarrow> string) \<Rightarrow> string option \<Rightarrow> string option \<Rightarrow> string option \<Rightarrow> json" where
  \<comment> \<open>\<open>_build_enhanced_info_section\<close>. The text of the default description, a constant
      with the API name filled in, is the parameter \<open>default_text\<close>.\<close>
  "build_enhanced_info_section default_text title description api_name =
     (let default_api_name = py_format api_name;
          default_title = default_api_name @ '' API'';
          default_description = default_text default_api_name
      in JObj [(''title'', JStr (py_or title default_title)),
               (''description'', JStr (py_or description default_description))])"

definition build_enhanced_servers_section ::
  "(string \<Rightarrow> string) \<Rightarrow> string option \<Rightarrow> string option \<Rightarrow> json" where
  \<comment> \<open>\<open>_build_enhanced_servers_section\<close>. Python's \<open>str.lower\<close> lowers every cased
      letter of the API name, also outside ASCII; it is the parameter \<open>lower_text\<close>.\<close>
  "build_enhanced_servers_section lower_text api_name api_version =
     (let default_api_name = lower_text (py_or api_name ''api'');
          default_api_version = py_or api_version ''v2.0''
      in JArr [JObj
           [(''url'', JStr (''https://api.businesscentral.dynamics.com/v2.0/{EnvironmentName}/api/linc/''
                            @ default_api_name @ ''/'' @ default_api_version)),
            (''variables'', JObj [(''EnvironmentName'',
               JObj [(''default'', JStr ''Production''),
                     (''description'', JStr ''The Business Central environment name'')])])]])"

definition build_security_section :: json where
  \<comment> \<open>\<open>_build_security_section\<close>\<close>
  "build_security_section = JArr [JObj [(''oauth2_client_credentials'', JArr [])]]"

definition build_security_schemes :: "string option \<Rightarrow> json" where
  \<comment> \<open>\<open>_build_security_schemes\<close>\<close>
  "build_security_schemes tenant_placeholder =
     (let default_tenant_placeholder = py_or tenant_placeholder ''{tenant_Id}''
      in JObj [(''oauth2_client_credentials'', JObj
           [(''type'', JStr ''oauth2''),
            (''description'', JStr ''OAuth2 Client Credentials Flow for Business Central API''),
            (''flows'', JObj [(''clientCredentials'', JObj
               [(''tokenUrl'', JStr (''https://login.microsoftonline.com/''
                                     @ default_tenant_placeholder @ ''/oauth2/v2.0/token'')),
                (''scopes'', JObj [(''https://api.businesscentral.dynamics.com/.default'',
                                    JStr ''Default Scope for Business Central API'')])])])])])"

text \<open>The command-line options \<open>convert\<close> hands on, each a string or \<open>None\<close>.\<close>

record options =
  opt_title :: "string option"
  opt_description :: "string option"
  opt_api_name :: "string option"
  opt_api_version :: "string option"
  opt_tenant_placeholder :: "string option"

text \<open>
  The two texts the model takes as given: the default description of the info section, a
  constant with the API name filled in, and \<open>str.lower\<close> on the API name.
\<close>

record texts =
  description_text :: "string \<Rightarrow> string"
  lower_text :: "string \<Rightarrow> string"

definition set_sections :: "texts \<Rightarrow> options \<Rightarrow> json \<Rightarrow> json option" where
  \<comment> \<open>the assignments of \<open>_enhance_openapi_spec\<close> before its first stage\<close>
  "set_sections txs opts spec = do {
     s1 \<leftarrow> setitem spec ''openapi'' (JStr ''3.1.1'');
     s2 \<leftarrow> setitem s1 ''info''
             (build_enhanced_info_section (description_text txs)
                (opt_title opts) (opt_description opts) (opt_api_name opts));
     s3 \<leftarrow> setitem s2 ''servers''
             (build_enhanced_servers_section (lower_text txs) (opt_api_name opts) (opt_api_version opts));
     s4 \<leftarrow> setitem s3 ''security'' build_security_section;
     has_components \<leftarrow> py_in ''components'' s4;
     s5 \<leftarrow> (if \<not> has_components then setitem s4 ''components'' (JObj []) else Some s4);
     components \<leftarrow> getitem s5 ''components'';
     components' \<leftarrow> setitem components ''securitySchemes'' (build_security_schemes (opt_tenant_placeholder opts));
     setitem s5 ''components'' components'
   }"

definition enhance_openapi_spec ::
  "texts \<Rightarrow> converter \<Rightarrow> options \<Rightarrow> json \<Rightarrow> json option" where
  \<comment> \<open>\<open>_enhance_openapi_spec\<close>: the document afterwards, or \<open>None\<close> when a stage raises\<close>
  "enhance_openapi_spec txs self opts spec = do {
     s0 \<leftarrow> set_sections txs opts spec;
     s1 \<leftarrow> add_company_parameter s0;
     s2 \<leftarrow> remove_navigation_paths s1;
     s3 \<leftarrow> remove_system_fields_from_mutation_schemas s2;
     s4 \<leftarrow> enforce_edmx_capabilities self s3;
     remove_unused_schema_variants self s4
   }"

section \<open>Notions used to state the properties\<close>

definition stored_keys :: "element \<Rightarrow> (string \<times> string) option" where
  \<comment> \<open>the two keys under which \<open>process_entity_set\<close> stores the record of an entity
      set: its name and the bare name of its type; \<open>None\<close> for an entity set the loop skips\<close>
  "stored_keys es =
     (case (map_of (attrib es) ''Name'', map_of (attrib es) ''EntityType'') of
        (Some n, Some t) \<Rightarrow> if n = [] \<or> t = [] then None else Some (n, entity_type_name_of t)
      | _ \<Rightarrow> None)"

definition restriction_term :: "element \<Rightarrow> bool" where
  \<comment> \<open>an annotation whose term names one of the three restrictions\<close>
  "restriction_term a =
     (let trm = get_attr a ''Term'' [] in
      str_in ''InsertRestrictions'' trm \<or> str_in ''UpdateRestrictions'' trm
      \<or> str_in ''DeleteRestrictions'' trm)"

subsection \<open>The scenario of the specification\<close>

definition scenario_entity_set :: element where
  \<comment> \<open>entity set \<open>Items\<close> of type \<open>Item\<close> with \<open>DeleteRestrictions.Deletable = false\<close>\<close>
  "scenario_entity_set =
     Element (edm ''EntitySet'') [(''Name'', ''Items''), (''EntityType'', ''Microsoft.NAV.Item'')]
       [Element (edm ''Annotation'') [(''Term'', ''Org.OData.Capabilities.V1.DeleteRestrictions'')]
          [Element (edm ''Record'') []
             [Element (edm ''PropertyValue'') [(''Property'', ''Deletable''), (''Bool'', ''false'')] []]]]"

definition scenario_metadata :: element where
  "scenario_metadata =
     Element ''{http://docs.oasis-open.org/odata/ns/edmx}Edmx'' []
       [Element ''{http://docs.oasis-open.org/odata/ns/edmx}DataServices'' []
          [Element (edm ''Schema'') [(''Namespace'', ''Microsoft.NAV'')]
             [Element (edm ''EntityContainer'') [(''Name'', ''NAV'')] [scenario_entity_set]]]]"

subsection \<open>Two entity sets backed by one type\<close>

definition second_entity_set :: element where
  \<comment> \<open>entity set \<open>Articles\<close>, also of type \<open>Item\<close>, without annotations\<close>
  "second_entity_set =
     Element (edm ''EntitySet'') [(''Name'', ''Articles''), (''EntityType'', ''Microsoft.NAV.Item'')] []"

definition shared_type_metadata :: element where
  "shared_type_metadata =
     Element ''{http://docs.oasis-open.org/odata/ns/edmx}Edmx'' []
       [Element (edm ''EntityContainer'') [(''Name'', ''NAV'')] [scenario_entity_set, second_entity_set]]"

subsection \<open>The steps of the pipeline on one path\<close>

definition company_item :: "string \<times> json \<Rightarrow> (string \<times> json) option" where
  \<comment> \<open>what parameter injection makes of one item of \<open>spec['paths']\<close>\<close>
  "company_item = (\<lambda>(path_name, values).
     map_option (Pair path_name)
       (if company_skipped path_name then Some values else add_company_to_path values))"

definition enforce_item :: "converter \<Rightarrow> string \<times> json \<Rightarrow> (string \<times> json) option" where
  \<comment> \<open>what capability enforcement makes of one item of \<open>spec['paths']\<close>: nothing
      happens when the entity-set mapping is empty\<close>
  "enforce_item self x = (if edmx_capabilities self = [] then Some x else enforce_path self x)"

definition component :: "(string \<times> json) list \<Rightarrow> string \<Rightarrow> json option" where
  \<comment> \<open>the entry \<open>k\<close> of \<open>spec['components']\<close>, if there is one\<close>
  "component kvs k = (case map_of kvs ''components'' of Some (JObj c) \<Rightarrow> map_of c k | _ \<Rightarrow> None)"

definition scoped_path :: "string list \<Rightarrow> string" where
  \<comment> \<open>the company-scoped path with the given segments after the scope prefix\<close>
  "scoped_path segs = ''/companies({id})'' @ concat (map (\<lambda>s. CHR ''/'' # s) segs)"

subsection \<open>An example document\<close>

definition scenario_self :: converter where
  \<comment> \<open>the converter after the extractor has read the metadata of the scenario\<close>
  "scenario_self = fst (parse_edmx_capabilities init (Inr scenario_metadata))"

definition plain_texts :: texts where
  \<comment> \<open>an empty default description, and the lowering of \<open>A..Z\<close>\<close>
  "plain_texts = \<lparr>description_text = (\<lambda>n. []), lower_text = lower\<rparr>"

definition no_options :: options where
  "no_options = \<lparr>opt_title = None, opt_description = None, opt_api_name = None,
                  opt_api_version = None, opt_tenant_placeholder = None\<rparr>"

definition example_paths :: "(string \<times> json) list" where
  "example_paths =
     [(''/companies({id})/Items({id})'',
         JObj [(''get'', JObj []), (''patch'', JObj []), (''delete'', JObj [])]),
      (''/companies({id})/Items({id})/lines'', JObj [(''get'', JObj [])]),
      (''/items'', JObj [(''get'', JObj []), (''parameters'', JArr [company_ref])]),
      (''/orders'', JObj [(''get'', JObj []), (''delete'', JObj [])])]"

definition example_document :: json where
  "example_document = JObj [(''openapi'', JStr ''3.1.0''), (''paths'', JObj example_paths)]"

definition example_out_paths :: "(string \<times> json) list" where
  \<comment> \<open>the paths of the example after one run\<close>
  "example_out_paths =
     [(''/companies({id})/Items({id})'', JObj [(''get'', JObj []), (''patch'', JObj [])]),
      (''/items'', JObj [(''get'', JObj []), (''parameters'', JArr [company_ref, company_ref])]),
      (''/orders'', JObj [(''get'', JObj []), (''delete'', JObj []),
                          (''parameters'', JArr [company_ref])])]"

definition example_rerun_paths :: "(string \<times> json) list" where
  \<comment> \<open>the paths of the example after a second run on the output of the first\<close>
  "example_rerun_paths =
     [(''/companies({id})/Items({id})'', JObj [(''get'', JObj []), (''patch'', JObj [])]),
      (''/items'', JObj [(''get'', JObj []),
                         (''parameters'', JArr [company_ref, company_ref, company_ref])]),
      (''/orders'', JObj [(''get'', JObj []), (''delete'', JObj []),
                          (''parameters'', JArr [company_ref, company_ref])])]"

subsection \<open>Counting the company reference\<close>

definition company_refs :: "json \<Rightarrow> nat" where
  \<comment> \<open>how often the \<open>parameters\<close> array of a path item refers to the shared parameter\<close>
  "company_refs item =
     (case getitem item ''parameters'' of Some (JArr xs) \<Rightarrow> count_list xs company_ref | _ \<Rightarrow> 0)"

definition claimed_system_endpoints :: "string list" where
  \<comment> \<open>the tenant-level system endpoints as the specification lists them, by name\<close>
  "claimed_system_endpoints =
     [''/$batch'', ''/apicategoryroutes'', ''/companies'', ''/companies({id})'', ''/entitydefinitions'',
      ''/entityDefinitions'', ''/externalbusinesseventdefinitions'', ''/externaleventsubscriptions'',
      ''/subscriptions'']"

definition scenario_path :: string where
  "scenario_path = ''/companies({id})/Items({id})''"

definition scenario_document :: json where
  \<comment> \<open>the base document of the scenario: one path with \<open>get\<close>, \<open>patch\<close> and \<open>delete\<close>\<close>
  "scenario_document =
     JObj [(''paths'', JObj [(scenario_path,
       JObj [(''get'', JObj []), (''patch'', JObj []), (''delete'', JObj [])])])]"

subsection \<open>A converter with two entity types\<close>

definition override_self :: converter where
  \<comment> \<open>entity sets \<open>Orders\<close> (type \<open>Order\<close>, no restriction) and \<open>Items\<close> (type \<open>Item\<close>,
      not deletable)\<close>
  "override_self =
     \<lparr>edmx_capabilities =
        [(''Orders'', \<lparr>insertable = True, updatable = True, deletable = True\<rparr>),
         (''Items'', \<lparr>insertable = True, updatable = True, deletable = False\<rparr>)],
      entity_type_capabilities =
        [(''Order'', \<lparr>insertable = True, updatable = True, deletable = True\<rparr>),
         (''Item'', \<lparr>insertable = True, updatable = True, deletable = False\<rparr>)]\<rparr>"

subsection \<open>Schema pruning: the criteria and an example\<close>

definition schema_removed :: "converter \<Rightarrow> string set \<Rightarrow> string set \<Rightarrow> string \<Rightarrow> bool" where
  \<comment> \<open>whether \<open>name\<close>, a key of the schemas, is in \<open>all_schemas_to_remove\<close>\<close>
  "schema_removed self post_refs patch_refs name =
     (endswith name ''-create''
        \<and> (name \<notin> post_refs \<or> capability_based_removal self ''-create'' insertable name)
      \<or> endswith name ''-update''
        \<and> (name \<notin> patch_refs \<or> capability_based_removal self ''-update'' updatable name)
      \<or> force_remove self name)"

definition base_entity_type :: "string \<Rightarrow> string" where
  \<comment> \<open>the base entity type of a suffixed schema in the words of the specification: the
      name without its suffix of seven characters and without the namespace prefix\<close>
  "base_entity_type schema = strip_nav (take (length schema - 7) schema)"

definition capability_restricted :: "converter \<Rightarrow> string \<Rightarrow> bool" where
  \<comment> \<open>the second removal criterion in the words of the specification\<close>
  "capability_restricted self schema =
     (endswith schema ''-create''
        \<and> (\<exists>c. map_of (entity_type_capabilities self) (base_entity_type schema) = Some c \<and> \<not> insertable c)
      \<or> endswith schema ''-update''
        \<and> (\<exists>c. map_of (entity_type_capabilities self) (base_entity_type schema) = Some c \<and> \<not> updatable c))"

definition readonly_self :: converter where
  \<comment> \<open>a converter that knows entity set \<open>items\<close> of type \<open>item\<close>, not insertable\<close>
  "readonly_self =
     \<lparr>edmx_capabilities = [(''items'', \<lparr>insertable = False, updatable = True, deletable = True\<rparr>)],
      entity_type_capabilities = [(''item'', \<lparr>insertable = False, updatable = True, deletable = True\<rparr>)]\<rparr>"

definition body_with_ref :: "string \<Rightarrow> json" where
  \<comment> \<open>an operation whose request body refers to the schema \<open>r\<close>\<close>
  "body_with_ref r =
     JObj [(''requestBody'', JObj [(''content'', JObj [(''application/json'',
       JObj [(''schema'', JObj [(''$ref'', JStr r)])])])])]"

definition schema_example_paths :: "(string \<times> json) list" where
  "schema_example_paths =
     [(''/items'', JObj [(''post'', body_with_ref ''#/components/schemas/Microsoft.NAV.item-create''),
                         (''patch'', body_with_ref ''#/components/schemas/Microsoft.NAV.item-update'')])]"

definition schema_example_schemas :: "(string \<times> json) list" where
  "schema_example_schemas =
     [(''Microsoft.NAV.item'', JObj [(''type'', JStr ''object'')]),
      (''Microsoft.NAV.item-create'', JObj [(''type'', JStr ''object'')]),
      (''Microsoft.NAV.item-update'', JObj [(''type'', JStr ''object'')]),
      (''Microsoft.NAV.order-create'', JObj [(''type'', JStr ''object'')])]"

definition schema_example :: "(string \<times> json) list" where
  "schema_example =
     [(''paths'', JObj schema_example_paths),
      (''components'', JObj [(''schemas'', JObj schema_example_schemas)])]"

subsection \<open>The flag an entity set ends with\<close>

text \<open>
  Which annotation governs which flag: the three terms are tried in the order insert,
  update, delete, and an annotation governs the flag of the first one its term contains.
\<close>

definition insert_restriction :: "element \<Rightarrow> bool" where
  "insert_restriction a = str_in ''InsertRestrictions'' (get_attr a ''Term'' [])"

definition update_restriction :: "element \<Rightarrow> bool" where
  "update_restriction a =
     (\<not> str_in ''InsertRestrictions'' (get_attr a ''Term'' [])
      \<and> str_in ''UpdateRestrictions'' (get_attr a ''Term'' []))"

definition delete_restriction :: "element \<Rightarrow> bool" where
  "delete_restriction a =
     (\<not> str_in ''InsertRestrictions'' (get_attr a ''Term'' [])
      \<and> \<not> str_in ''UpdateRestrictions'' (get_attr a ''Term'' [])
      \<and> str_in ''DeleteRestrictions'' (get_attr a ''Term'' []))"

definition declared_value :: "(element \<Rightarrow> bool) \<Rightarrow> string \<Rightarrow> element \<Rightarrow> bool list" where
  \<comment> \<open>what the annotation \<open>a\<close> says about a flag: nothing if it does not govern the flag
      or has no property value of the given name, and otherwise whether the \<open>Bool\<close>
      attribute of that property value (\<open>true\<close> when absent) is \<open>true\<close> in any letter case\<close>
  "declared_value governs property a =
     (if governs a then
        (case find_property_value property a of
           None \<Rightarrow> []
         | Some pv \<Rightarrow> [lower (get_attr pv ''Bool'' ''true'') = ''true''])
      else [])"

definition declared_values :: "(element \<Rightarrow> bool) \<Rightarrow> string \<Rightarrow> element \<Rightarrow> bool list" where
  \<comment> \<open>what the annotations nested in the entity set \<open>es\<close> say about a flag, in document
      order\<close>
  "declared_values governs property es =
     concat (map (declared_value governs property) (findall (edm ''Annotation'') es))"

definition annotated_entity_set :: element where
  \<comment> \<open>entity set \<open>Orders\<close> with four annotations: not insertable (\<open>False\<close>), an update
      restriction without property value, not deletable and then deletable (\<open>TRUE\<close>)\<close>
  "annotated_entity_set =
     Element (edm ''EntitySet'') [(''Name'', ''Orders''), (''EntityType'', ''Microsoft.NAV.Order'')]
       [Element (edm ''Annotation'') [(''Term'', ''Org.OData.Capabilities.V1.InsertRestrictions'')]
          [Element (edm ''Record'') []
             [Element (edm ''PropertyValue'') [(''Property'', ''Insertable''), (''Bool'', ''False'')] []]],
        Element (edm ''Annotation'') [(''Term'', ''Org.OData.Capabilities.V1.UpdateRestrictions'')]
          [Element (edm ''Record'') [] []],
        Element (edm ''Annotation'') [(''Term'', ''Org.OData.Capabilities.V1.DeleteRestrictions'')]
          [Element (edm ''Record'') []
             [Element (edm ''PropertyValue'') [(''Property'', ''Deletable''), (''Bool'', ''false'')] []]],
        Element (edm ''Annotation'') [(''Term'', ''Org.OData.Capabilities.V1.DeleteRestrictions'')]
          [Element (edm ''Record'') []
             [Element (edm ''PropertyValue'') [(''Property'', ''Deletable''), (''Bool'', ''TRUE'')] []]]]"

definition annotated_metadata :: element where
  "annotated_metadata =
     Element ''{http://docs.oasis-open.org/odata/ns/edmx}Edmx'' []
       [Element (edm ''EntityContainer'') [(''Name'', ''NAV'')] [annotated_entity_set]]"

subsection \<open>What an operation refers to\<close>

fun pointers :: "json \<Rightarrow> string list" where
  \<comment> \<open>every string that stands under the key \<open>$ref\<close> in a dictionary anywhere inside a
      JSON value, through dictionaries and lists\<close>
  "pointers (JObj kvs) =
     concat (map (\<lambda>(k, v). (case v of JStr s \<Rightarrow> if k = ''$ref'' then [s] else [] | _ \<Rightarrow> pointers v)) kvs)"
| "pointers (JArr xs) = concat (map pointers xs)"
| "pointers _ = []"

definition pointer_target :: "string \<Rightarrow> string option" where
  \<comment> \<open>the schema a pointer into the schema namespace names: the pointer without
      \<open>#/components/schemas/\<close>; \<open>None\<close> for a pointer that leads elsewhere\<close>
  "pointer_target ptr =
     (if startswith ptr ''#/components/schemas/''
      then Some (str_replace ''#/components/schemas/'' [] ptr) else None)"

definition referenced_by :: "string \<Rightarrow> (string \<times> json) list \<Rightarrow> string \<Rightarrow> bool" where
  \<comment> \<open>some path has an operation \<open>m\<close> whose body holds, at any depth, a pointer to the
      schema \<open>name\<close>\<close>
  "referenced_by m ps name =
     (\<exists>(path, item) \<in> set ps. \<exists>body. getitem item m = Some body
        \<and> (\<exists>ptr \<in> set (pointers body). pointer_target ptr = Some name))"

subsection \<open>Notions for a second run\<close>

definition dels :: "capabilities \<Rightarrow> (string \<times> json) list \<Rightarrow> (string \<times> json) list" where
  \<comment> \<open>the items of a path object after the three removals under a capability record\<close>
  "dels c kvs =
     (if deletable c then id else AList.delete ''delete'')
       ((if updatable c then id else AList.delete ''patch'')
          ((if insertable c then id else AList.delete ''post'') kvs))"

definition schema_names :: "json \<Rightarrow> string list" where
  \<comment> \<open>the names in the schema map of a document, in order; none when there is no such map\<close>
  "schema_names spec =
     (case spec of
        JObj kvs \<Rightarrow> (case component kvs ''schemas'' of Some (JObj schemas) \<Rightarrow> map fst schemas | _ \<Rightarrow> [])
      | _ \<Rightarrow> [])"

section \<open>Evaluation on concrete inputs\<close>

lemmas py_eval = startswith_def endswith_def str_in_def sublist_code(3) suffix_to_prefix
  lower_def lower_chr_def get_attr_def edm_def findall_def find_property_value_def Let_def

section \<open>Capability extractor: properties\<close>

lemma process_skipped:
  "stored_keys es = None \<Longrightarrow> process_entity_set es s = s"
  by (cases s) (auto simp: stored_keys_def process_entity_set_def split: option.splits if_splits)

lemma process_stored:
  "stored_keys es = Some (n, t) \<Longrightarrow>
   fst (process_entity_set es s) =
     (fst s)\<lparr>edmx_capabilities := AList.update n (entity_set_capabilities es) (edmx_capabilities (fst s)),
            entity_type_capabilities :=
              AList.update t (entity_set_capabilities es) (entity_type_capabilities (fst s))\<rparr>"
  by (cases s) (auto simp: stored_keys_def process_entity_set_def Let_def split: option.splits if_splits)

lemma fold_keeps_type:
  "\<forall>e \<in> set post. map_option snd (stored_keys e) \<noteq> Some t \<Longrightarrow>
   map_of (entity_type_capabilities (fst (fold process_entity_set post s))) t
     = map_of (entity_type_capabilities (fst s)) t"
proof (induction post arbitrary: s)
  case Nil
  then show ?case by simp
next
  case (Cons e post)
  have step: "map_of (entity_type_capabilities (fst (process_entity_set e s))) t
      = map_of (entity_type_capabilities (fst s)) t"
  proof (cases "stored_keys e")
    case None
    then show ?thesis by (simp add: process_skipped)
  next
    case (Some k)
    obtain n t' where k: "k = (n, t')" by (cases k)
    with Some Cons.prems have "t' \<noteq> t" by auto
    with Some k show ?thesis by (simp add: process_stored update_conv')
  qed
  from Cons show ?case by (simp add: step)
qed

lemma fold_keeps_name:
  "\<forall>e \<in> set post. map_option fst (stored_keys e) \<noteq> Some n \<Longrightarrow>
   map_of (edmx_capabilities (fst (fold process_entity_set post s))) n
     = map_of (edmx_capabilities (fst s)) n"
proof (induction post arbitrary: s)
  case Nil
  then show ?case by simp
next
  case (Cons e post)
  have step: "map_of (edmx_capabilities (fst (process_entity_set e s))) n
      = map_of (edmx_capabilities (fst s)) n"
  proof (cases "stored_keys e")
    case None
    then show ?thesis by (simp add: process_skipped)
  next
    case (Some k)
    obtain n' t where k: "k = (n', t)" by (cases k)
    with Some Cons.prems have "n' \<noteq> n" by auto
    with Some k show ?thesis by (simp add: process_stored update_conv')
  qed
  from Cons show ?case by (simp add: step)
qed

lemma parse_fst:
  "fst (parse_edmx_capabilities self (Inr doc))
     = fst (fold process_entity_set (findall (edm ''EntitySet'') doc) (self, []))"
  by (simp add: parse_edmx_capabilities_def Let_def split: prod.splits)

lemma apply_annotation_other:
  "\<not> restriction_term a \<Longrightarrow> apply_annotation a c = c"
  by (simp add: apply_annotation_def restriction_term_def Let_def)

lemma fold_unchanged:
  "\<forall>a \<in> set xs. f a c = c \<Longrightarrow> fold f xs c = c"
  by (induction xs) auto

lemma scenario_entity_sets:
  "findall (edm ''EntitySet'') scenario_metadata = [scenario_entity_set]"
  by (simp add: scenario_metadata_def scenario_entity_set_def py_eval)

lemma scenario_stored_keys:
  "stored_keys scenario_entity_set = Some (''Items'', ''Item'')"
  by (simp add: scenario_entity_set_def stored_keys_def entity_type_name_of_def)

lemma scenario_capabilities:
  "entity_set_capabilities scenario_entity_set
     = \<lparr>insertable = True, updatable = True, deletable = False\<rparr>"
  by (simp add: scenario_entity_set_def entity_set_capabilities_def apply_annotation_def
      bool_attribute_def py_eval)

lemma scenario_converter:
  "fst (parse_edmx_capabilities init (Inr scenario_metadata))
     = \<lparr>edmx_capabilities = [(''Items'', \<lparr>insertable = True, updatable = True, deletable = False\<rparr>)],
        entity_type_capabilities =
          [(''Item'', \<lparr>insertable = True, updatable = True, deletable = False\<rparr>)]\<rparr>"
  by (simp add: parse_fst scenario_entity_sets process_stored [OF scenario_stored_keys]
      scenario_capabilities init_def)

lemma apply_annotation_flags:
  "insertable (apply_annotation a c) = last (insertable c # declared_value insert_restriction ''Insertable'' a)"
  "updatable (apply_annotation a c) = last (updatable c # declared_value update_restriction ''Updatable'' a)"
  "deletable (apply_annotation a c) = last (deletable c # declared_value delete_restriction ''Deletable'' a)"
  by (simp_all add: apply_annotation_def declared_value_def insert_restriction_def
      update_restriction_def delete_restriction_def bool_attribute_def Let_def split: option.splits)

lemma last_declared: "last (last (x # ys) # zs) = last (x # ys @ zs)"
  by (cases zs) simp_all

lemma fold_annotation_flags:
  "insertable (fold apply_annotation as c)
     = last (insertable c # concat (map (declared_value insert_restriction ''Insertable'') as))"
  "updatable (fold apply_annotation as c)
     = last (updatable c # concat (map (declared_value update_restriction ''Updatable'') as))"
  "deletable (fold apply_annotation as c)
     = last (deletable c # concat (map (declared_value delete_restriction ''Deletable'') as))"
proof (induction as arbitrary: c)
  case Nil
  {
    case 1 show ?case by simp
  next
    case 2 show ?case by simp
  next
    case 3 show ?case by simp
  }
next
  case (Cons a as)
  {
    case 1 show ?case
      by (simp only: fold_simps Cons.IH(1) apply_annotation_flags last_declared list.map concat.simps)
  next
    case 2 show ?case
      by (simp only: fold_simps Cons.IH(2) apply_annotation_flags last_declared list.map concat.simps)
  next
    case 3 show ?case
      by (simp only: fold_simps Cons.IH(3) apply_annotation_flags last_declared list.map concat.simps)
  }
qed

lemma entity_set_capabilities_flags:
  "entity_set_capabilities es =
     \<lparr>insertable = last (True # declared_values insert_restriction ''Insertable'' es),
      updatable = last (True # declared_values update_restriction ''Updatable'' es),
      deletable = last (True # declared_values delete_restriction ''Deletable'' es)\<rparr>"
  by (rule capabilities.equality)
    (simp_all add: entity_set_capabilities_def declared_values_def fold_annotation_flags)

lemma annotated_entity_sets:
  "findall (edm ''EntitySet'') annotated_metadata = [] @ annotated_entity_set # []"
  by (simp add: annotated_metadata_def annotated_entity_set_def py_eval)

lemma annotated_stored_keys:
  "stored_keys annotated_entity_set = Some (''Orders'', ''Order'')"
  by (simp add: annotated_entity_set_def stored_keys_def entity_type_name_of_def)

lemma annotated_declared:
  "declared_values insert_restriction ''Insertable'' annotated_entity_set = [False]"
  "declared_values update_restriction ''Updatable'' annotated_entity_set = []"
  "declared_values delete_restriction ''Deletable'' annotated_entity_set = [False, True]"
  by (simp_all add: declared_values_def declared_value_def insert_restriction_def
      update_restriction_def delete_restriction_def annotated_entity_set_def py_eval)

text \<open>
  C5. Every entity set the extractor processes gets a capability record, stored under the
  name of the set (the last set of that name in document order, when several share it).
  Each flag of the record is what the annotations nested in the entity set declare for
  it: \<open>insertable\<close> is governed by the annotations whose term contains
  \<open>InsertRestrictions\<close>, \<open>updatable\<close> by those with \<open>UpdateRestrictions\<close>,
  \<open>deletable\<close> by those with \<open>DeleteRestrictions\<close> (the three terms being tried in
  this order). A governing annotation declares whether the \<open>Bool\<close> attribute of its
  \<open>Insertable\<close>, \<open>Updatable\<close> or \<open>Deletable\<close> property value is \<open>true\<close> in any
  letter case, and declares nothing when that property value is absent. The flag is the
  last declaration in document order, and \<open>true\<close> when there is none; no annotation
  touches a flag it does not govern. So the record is all true when no annotation names a
  restriction.
\<close>

theorem capability_record_of_entity_set:
  assumes "findall (edm ''EntitySet'') doc = pre @ es # post"
    and "stored_keys es = Some (n, t)"
    and "\<forall>e \<in> set post. map_option fst (stored_keys e) \<noteq> Some n"
  shows "map_of (edmx_capabilities (fst (parse_edmx_capabilities self (Inr doc)))) n
           = Some \<lparr>insertable = last (True # declared_values insert_restriction ''Insertable'' es),
                   updatable = last (True # declared_values update_restriction ''Updatable'' es),
                   deletable = last (True # declared_values delete_restriction ''Deletable'' es)\<rparr>
    \<and> ((\<forall>a \<in> set (findall (edm ''Annotation'') es). \<not> restriction_term a) \<longrightarrow>
         map_of (edmx_capabilities (fst (parse_edmx_capabilities self (Inr doc)))) n
           = Some \<lparr>insertable = True, updatable = True, deletable = True\<rparr>)"
proof -
  have stored: "map_of (edmx_capabilities (fst (parse_edmx_capabilities self (Inr doc)))) n
           = Some (entity_set_capabilities es)"
    using assms by (simp add: parse_fst fold_keeps_name process_stored update_conv')
  have none: "(\<forall>a \<in> set (findall (edm ''Annotation'') es). \<not> restriction_term a) \<longrightarrow>
         entity_set_capabilities es = \<lparr>insertable = True, updatable = True, deletable = True\<rparr>"
    by (simp add: entity_set_capabilities_def fold_unchanged apply_annotation_other)
  from stored none show ?thesis
    by (simp only: entity_set_capabilities_flags [symmetric]) blast
qed

theorem capability_record_witness:
  "map_of (edmx_capabilities (fst (parse_edmx_capabilities init (Inr annotated_metadata)))) ''Orders''
     = Some \<lparr>insertable = False, updatable = True, deletable = True\<rparr>"
proof -
  have c: "\<forall>e \<in> set []. map_option fst (stored_keys e) \<noteq> Some ''Orders''"
    by simp
  from capability_record_of_entity_set [OF annotated_entity_sets annotated_stored_keys c, of init]
  show ?thesis by (simp add: annotated_declared)
qed

text \<open>
  C10. When several entity sets are backed by the same entity type, the mapping keyed by
  entity type holds the record of the last of them in document order: whatever stands
  before the entity set \<open>es\<close>, if no later processed entity set has its type name, the
  record under that name is the record of \<open>es\<close>.
\<close>

theorem last_entity_set_wins:
  assumes "findall (edm ''EntitySet'') doc = pre @ es # post"
    and "stored_keys es = Some (n, t)"
    and "\<forall>e \<in> set post. map_option snd (stored_keys e) \<noteq> Some t"
  shows "map_of (entity_type_capabilities (fst (parse_edmx_capabilities self (Inr doc)))) t
           = Some (entity_set_capabilities es)"
  using assms by (simp add: parse_fst fold_keeps_type process_stored update_conv')

theorem last_entity_set_wins_witness:
  "stored_keys scenario_entity_set = Some (''Items'', ''Item'')
   \<and> entity_set_capabilities scenario_entity_set
       = \<lparr>insertable = True, updatable = True, deletable = False\<rparr>
   \<and> map_of (entity_type_capabilities (fst (parse_edmx_capabilities init (Inr shared_type_metadata))))
       ''Item'' = Some \<lparr>insertable = True, updatable = True, deletable = True\<rparr>"
proof -
  have a: "findall (edm ''EntitySet'') shared_type_metadata
             = [scenario_entity_set] @ second_entity_set # []"
    by (simp add: shared_type_metadata_def scenario_entity_set_def second_entity_set_def py_eval)
  have b: "stored_keys second_entity_set = Some (''Articles'', ''Item'')"
    by (simp add: second_entity_set_def stored_keys_def entity_type_name_of_def)
  have c: "\<forall>e \<in> set []. map_option snd (stored_keys e) \<noteq> Some ''Item''"
    by simp
  have d: "entity_set_capabilities second_entity_set
             = \<lparr>insertable = True, updatable = True, deletable = True\<rparr>"
    by (simp add: second_entity_set_def entity_set_capabilities_def py_eval)
  from last_entity_set_wins [OF a b c, of init] show ?thesis
    by (simp add: d scenario_stored_keys scenario_capabilities)
qed

section \<open>Capability enforcement: properties\<close>

text \<open>
  C6. A metadata document that cannot be parsed does not stop the extractor: it returns
  with the converter as it was, both mappings empty, and one warning printed. With an
  empty entity-set mapping the enforcement stage returns the document as it is.
\<close>

theorem parse_failure_degrades_to_noop:
  "fst (parse_edmx_capabilities init (Inl e)) = init
   \<and> snd (parse_edmx_capabilities init (Inl e)) = [Warning e]
   \<and> edmx_capabilities init = [] \<and> entity_type_capabilities init = []
   \<and> (edmx_capabilities self = [] \<longrightarrow>
        enforce_edmx_capabilities self (JObj kvs) = Some (JObj kvs))"
  by (simp add: parse_edmx_capabilities_def init_def enforce_edmx_capabilities_def py_in_def)

theorem parse_failure_degrades_to_noop_witness:
  "enforce_edmx_capabilities (fst (parse_edmx_capabilities init (Inl ''no element found'')))
     (JObj [(''paths'', JObj [(''/items({id})'', JObj [(''get'', JObj []), (''delete'', JObj [])])])])
   = Some (JObj [(''paths'', JObj [(''/items({id})'', JObj [(''get'', JObj []), (''delete'', JObj [])])])])"
proof -
  have empty: "edmx_capabilities (fst (parse_edmx_capabilities init (Inl ''no element found''))) = []"
    by (simp add: parse_edmx_capabilities_def init_def)
  from parse_failure_degrades_to_noop [of "''no element found''"
      "fst (parse_edmx_capabilities init (Inl ''no element found''))"
      "[(''paths'', JObj [(''/items({id})'', JObj [(''get'', JObj []), (''delete'', JObj [])])])]"]
    empty
  show ?thesis by blast
qed

section \<open>Documents on their way through the pipeline\<close>

lemma py_in_obj [simp]: "py_in k (JObj kvs) = Some (map_of kvs k \<noteq> None)"
  by (simp add: py_in_def map_of_eq_None_iff)
lemma getitem_obj [simp]: "getitem (JObj kvs) k = map_of kvs k"
  by (simp add: getitem_def)
lemma setitem_obj [simp]: "setitem (JObj kvs) k v = Some (JObj (AList.update k v kvs))"
  by (simp add: setitem_def)
lemma items_obj [simp]: "items (JObj kvs) = Some kvs"
  by (simp add: items_def)

lemma getitem_SomeD: "getitem obj k = Some v \<Longrightarrow> \<exists>kvs. obj = JObj kvs \<and> map_of kvs k = Some v"
  by (cases obj) (simp_all add: getitem_def)
lemma setitem_SomeD: "setitem obj k v = Some r \<Longrightarrow> \<exists>kvs. obj = JObj kvs \<and> r = JObj (AList.update k v kvs)"
  by (cases obj) (auto simp: setitem_def)
lemma items_SomeD: "items obj = Some kvs \<Longrightarrow> obj = JObj kvs"
  by (cases obj) (simp_all add: items_def)

lemma map_of_eq_None_keys: "(map_of al k = None) = (k \<notin> fst ` set al)"
  by (simp add: map_of_eq_None_iff)

lemma those_map_Some:
  "those (map f xs) = Some ys \<longleftrightarrow> list_all2 (\<lambda>x y. f x = Some y) xs ys"
proof (induction xs arbitrary: ys)
  case Nil
  then show ?case by auto
next
  case (Cons x xs)
  show ?case
  proof (cases "f x")
    case None
    then show ?thesis by (auto simp: list_all2_Cons1)
  next
    case (Some y)
    then show ?thesis using Cons.IH by (auto simp: list_all2_Cons1 split: option.splits)
  qed
qed

lemma update_fresh: "k \<notin> fst ` set al \<Longrightarrow> AList.update k v al = al @ [(k, v)]"
  by (induction al) auto

lemma foldM_company:
  "distinct (map fst ps) \<Longrightarrow> fst ` set ps \<inter> fst ` set acc = {} \<Longrightarrow>
   foldM company_path_step ps acc = map_option (\<lambda>ps1. acc @ ps1) (those (map company_item ps))"
proof (induction ps arbitrary: acc)
  case Nil
  then show ?case by simp
next
  case (Cons x ps)
  obtain k v where x: "x = (k, v)" by (cases x)
  show ?case
  proof (cases "company_item (k, v)")
    case None
    then show ?thesis
      by (auto simp: x company_item_def company_path_step_def split: if_splits)
  next
    case (Some y)
    then obtain v' where y: "y = (k, v')"
      and v': "(if company_skipped k then Some v else add_company_to_path v) = Some v'"
      by (auto simp: company_item_def split: if_splits)
    from Cons.prems x have fresh: "k \<notin> fst ` set acc" by auto
    have step: "company_path_step (k, v) acc = Some (acc @ [(k, v')])"
      using v' fresh by (auto simp: company_path_step_def update_fresh split: if_splits)
    have disj: "fst ` set ps \<inter> fst ` set (acc @ [(k, v')]) = {}"
      using Cons.prems x by auto
    have d: "distinct (map fst ps)" using Cons.prems by simp
    show ?thesis
      using Cons.IH [OF d disj] Some y
      by (simp add: x step option.map_comp comp_def split: option.splits)
  qed
qed

lemma set_sections_paths:
  assumes "set_sections dt opts spec = Some s0"
  shows "getitem s0 ''paths'' = getitem spec ''paths'' \<and> (\<exists>kvs c. s0 = JObj kvs \<and> map_of kvs ''components'' = Some (JObj c))"
proof -
  from assms obtain kvs where spec: "spec = JObj kvs"
    by (cases spec) (auto simp: set_sections_def setitem_def)
  show ?thesis
    using assms unfolding spec set_sections_def
    by (auto simp: bind_eq_Some_conv update_conv' split: if_splits dest!: setitem_SomeD getitem_SomeD)
qed

lemma define_company_parameter_shape:
  assumes "define_company_parameter s0 = Some s1"
  shows "\<exists>kvs c ps. s0 = JObj kvs \<and> map_of kvs ''components'' = Some (JObj c)
           \<and> s1 = JObj (AList.update ''components''
                  (JObj (AList.update ''parameters'' (JObj (AList.update ''company'' company_parameter ps)) c)) kvs)
           \<and> (case map_of c ''parameters'' of None \<Rightarrow> ps = [] | Some p \<Rightarrow> p = JObj ps)"
proof -
  from assms obtain kvs where s0: "s0 = JObj kvs"
    by (cases s0) (auto simp: define_company_parameter_def getitem_def)
  from assms obtain comps where c: "map_of kvs ''components'' = Some comps"
    by (auto simp: s0 define_company_parameter_def bind_eq_Some_conv)
  from assms c obtain cs where comps: "comps = JObj cs"
    by (cases comps) (auto simp: s0 define_company_parameter_def bind_eq_Some_conv py_in_def setitem_def getitem_def split: if_splits)
  show ?thesis
  proof (cases "map_of cs ''parameters''")
    case None
    with assms c show ?thesis
      by (auto simp: s0 comps define_company_parameter_def update_conv')
  next
    case (Some p)
    with assms c obtain ps where "p = JObj ps"
      by (cases p) (auto simp: s0 comps define_company_parameter_def setitem_def)
    with Some assms c show ?thesis
      by (auto simp: s0 comps define_company_parameter_def update_conv')
  qed
qed

lemma add_company_to_paths_shape:
  assumes "add_company_to_paths (JObj kvs) = Some s1"
  shows "(map_of kvs ''paths'' = None \<and> s1 = JObj kvs)
     \<or> (\<exists>ps new_paths. map_of kvs ''paths'' = Some (JObj ps)
            \<and> foldM company_path_step ps [] = Some new_paths
            \<and> s1 = JObj (AList.update ''paths'' (JObj new_paths) kvs))"
proof (cases "map_of kvs ''paths''")
  case None
  with assms show ?thesis by (simp add: add_company_to_paths_def)
next
  case (Some paths)
  with assms obtain ps where "paths = JObj ps"
    by (cases paths) (auto simp: add_company_to_paths_def items_def)
  with Some assms show ?thesis
    by (auto simp: add_company_to_paths_def bind_eq_Some_conv)
qed

lemma add_company_paths:
  assumes "add_company_parameter s0 = Some s1"
  shows "(getitem s0 ''paths'' = None \<longrightarrow> getitem s1 ''paths'' = None)
     \<and> (\<forall>ps. getitem s0 ''paths'' = Some (JObj ps) \<longrightarrow> distinct (map fst ps) \<longrightarrow>
           (\<exists>ps1. those (map company_item ps) = Some ps1 \<and> getitem s1 ''paths'' = Some (JObj ps1)))"
proof -
  from assms obtain sm where a: "define_company_parameter s0 = Some sm"
    and b: "add_company_to_paths sm = Some s1"
    by (auto simp: add_company_parameter_def bind_eq_Some_conv)
  from define_company_parameter_shape [OF a] obtain kvs c2 where s0: "s0 = JObj kvs"
    and sm: "sm = JObj (AList.update ''components'' c2 kvs)"
    by blast
  from add_company_to_paths_shape [OF b [unfolded sm]] show ?thesis
    by (auto simp: s0 update_conv' foldM_company)
qed

lemma remove_path_obj:
  "remove_path k (JObj kvs) = Some (JObj (filter (\<lambda>(k', v). k' \<noteq> k) kvs))"
proof (cases "map_of kvs k")
  case None
  then have "k \<notin> fst ` set kvs" by (simp add: map_of_eq_None_iff)
  then have "filter (\<lambda>(k', v). k' \<noteq> k) kvs = kvs"
    by (force simp: filter_id_conv)
  with None show ?thesis by (simp add: remove_path_def)
next
  case (Some v)
  then have "k \<in> fst ` set kvs" by (metis map_of_eq_None_iff option.distinct(1))
  with Some show ?thesis
    by (auto simp: remove_path_def delitem_def AList.delete_eq intro!: filter_cong)
qed

lemma foldM_remove_path:
  "foldM remove_path ks (JObj kvs) = Some (JObj (filter (\<lambda>(k, v). k \<notin> set ks) kvs))"
proof (induction ks arbitrary: kvs)
  case Nil
  then show ?case by simp
next
  case (Cons k ks)
  show ?case
    by (simp add: remove_path_obj Cons.IH) (auto intro!: filter_cong)
qed

lemma those_str_of_keys:
  "those (map (str_of \<circ> (\<lambda>(k, v). JStr k)) ps) = Some (map fst ps)"
  by (induction ps) (auto simp: str_of_def)

lemma remove_navigation_paths_paths:
  assumes "remove_navigation_paths (JObj kvs) = Some s'"
  shows "(map_of kvs ''paths'' = None \<and> s' = JObj kvs)
     \<or> (\<exists>paths paths'. map_of kvs ''paths'' = Some paths \<and> s' = JObj (AList.update ''paths'' paths' kvs)
           \<and> (\<forall>ps. paths = JObj ps \<longrightarrow>
                 paths' = JObj (filter (\<lambda>(k, v). \<not> is_navigation_path k) ps)))"
proof (cases "map_of kvs ''paths''")
  case None
  with assms show ?thesis by (simp add: remove_navigation_paths_def)
next
  case (Some paths)
  with assms obtain names path_names paths' where
    n: "py_iter paths = Some names" and pn: "those (map str_of names) = Some path_names"
    and f: "foldM remove_path (filter is_navigation_path path_names) paths = Some paths'"
    and s': "s' = JObj (AList.update ''paths'' paths' kvs)"
    by (auto simp: remove_navigation_paths_def bind_eq_Some_conv)
  have "paths' = JObj (filter (\<lambda>(k, v). \<not> is_navigation_path k) ps)" if p: "paths = JObj ps" for ps
  proof -
    from n p have "names = map (\<lambda>(k, v). JStr k) ps" by (simp add: py_iter_def)
    with pn have "path_names = map fst ps" by (simp add: those_str_of_keys)
    with f p have "paths' = JObj (filter (\<lambda>(k, v). k \<notin> set (filter is_navigation_path (map fst ps))) ps)"
      by (simp add: foldM_remove_path)
    also have "filter (\<lambda>(k, v). k \<notin> set (filter is_navigation_path (map fst ps))) ps
        = filter (\<lambda>(k, v). \<not> is_navigation_path k) ps"
      by (rule filter_cong) force+
    finally show ?thesis .
  qed
  with Some s' show ?thesis by blast
qed

lemma scrub_paths:
  assumes "remove_system_fields_from_mutation_schemas (JObj kvs) = Some s'"
  shows "\<exists>kvs'. s' = JObj kvs' \<and> map_of kvs' ''paths'' = map_of kvs ''paths''"
proof (cases "map_of kvs ''components''")
  case None
  with assms show ?thesis by (auto simp: remove_system_fields_from_mutation_schemas_def)
next
  case (Some comps)
  show ?thesis
  proof (cases "py_in ''schemas'' comps")
    case None
    with Some assms show ?thesis by (auto simp: remove_system_fields_from_mutation_schemas_def)
  next
    case (Some b)
    with \<open>map_of kvs ''components'' = Some comps\<close> assms show ?thesis
      by (cases b) (auto simp: remove_system_fields_from_mutation_schemas_def bind_eq_Some_conv update_conv')
  qed
qed

lemma those_map_Some_id: "those (map Some xs) = Some xs"
  by (induction xs) auto

lemma enforce_item_nonempty:
  "edmx_capabilities self \<noteq> [] \<Longrightarrow> enforce_item self = enforce_path self"
  by (rule ext) (simp add: enforce_item_def)

lemma enforce_item_empty:
  "edmx_capabilities self = [] \<Longrightarrow> those (map (enforce_item self) xs) = Some xs"
  by (induction xs) (auto simp: enforce_item_def)

lemma enforce_paths:
  assumes "enforce_edmx_capabilities self (JObj kvs) = Some s'"
  shows "(map_of kvs ''paths'' = None \<and> s' = JObj kvs)
     \<or> (\<exists>ps ps'. map_of kvs ''paths'' = Some (JObj ps) \<and> those (map (enforce_item self) ps) = Some ps'
            \<and> s' = JObj (AList.update ''paths'' (JObj ps') kvs))
     \<or> (edmx_capabilities self = [] \<and> s' = JObj kvs)"
proof (cases "map_of kvs ''paths'' = None \<or> edmx_capabilities self = []")
  case True
  with assms show ?thesis by (auto simp: enforce_edmx_capabilities_def)
next
  case False
  then obtain paths where p: "map_of kvs ''paths'' = Some paths" by auto
  with False assms obtain ps where "paths = JObj ps"
    by (cases paths) (auto simp: enforce_edmx_capabilities_def items_def)
  with p False assms show ?thesis
    by (auto simp: enforce_edmx_capabilities_def bind_eq_Some_conv enforce_item_nonempty)
qed

lemma prune_paths:
  assumes "remove_unused_schema_variants self (JObj kvs) = Some s'"
  shows "\<exists>kvs'. s' = JObj kvs' \<and> map_of kvs' ''paths'' = map_of kvs ''paths''"
proof (cases "map_of kvs ''paths'' = None \<or> map_of kvs ''components'' = None")
  case True
  show ?thesis
  proof (cases "map_of kvs ''paths''")
    case None
    with assms show ?thesis by (auto simp: remove_unused_schema_variants_def)
  next
    case (Some p)
    with True assms show ?thesis by (auto simp: remove_unused_schema_variants_def)
  qed
next
  case False
  then obtain comps where c: "map_of kvs ''components'' = Some comps" by auto
  show ?thesis
  proof (cases "py_in ''schemas'' comps")
    case None
    with c False assms show ?thesis by (auto simp: remove_unused_schema_variants_def)
  next
    case (Some b)
    with c False assms show ?thesis
      by (cases b) (auto simp: remove_unused_schema_variants_def bind_eq_Some_conv update_conv' Let_def)
  qed
qed

lemma those_list_all2_keys:
  assumes "those (map f xs) = Some ys" and "\<And>x y. f x = Some y \<Longrightarrow> fst y = fst x"
  shows "map fst ys = map fst xs"
proof -
  from assms(1) have "list_all2 (\<lambda>x y. f x = Some y) xs ys" by (simp add: those_map_Some)
  then show ?thesis by (induction rule: list_all2_induct) (auto dest: assms(2))
qed

lemma those_map_of:
  assumes "those (map f xs) = Some ys" and "\<And>x y. f x = Some y \<Longrightarrow> fst y = fst x"
    and "map_of ys k = Some y"
  shows "\<exists>x. map_of xs k = Some x \<and> f (k, x) = Some (k, y)"
proof -
  from assms(1) have "list_all2 (\<lambda>x y. f x = Some y) xs ys" by (simp add: those_map_Some)
  then show ?thesis using assms(3)
  proof (induction rule: list_all2_induct)
    case Nil
    then show ?case by simp
  next
    case (Cons x xs y' ys)
    from Cons(1) have "fst y' = fst x" by (rule assms(2))
    with Cons show ?case by (cases x; cases y') (auto split: if_splits)
  qed
qed

lemma company_item_fst: "company_item x = Some y \<Longrightarrow> fst y = fst x"
  by (cases x) (auto simp: company_item_def split: if_splits)

lemma enforce_item_fst: "enforce_item self x = Some y \<Longrightarrow> fst y = fst x"
  by (cases x) (auto simp: enforce_item_def enforce_path_def bind_eq_Some_conv split: if_splits option.splits)

lemma map_of_filter_keys:
  "map_of (filter (\<lambda>(k, v). P k) xs) k = (if P k then map_of xs k else None)"
  by (induction xs) auto

lemma pipeline_paths:
  assumes "enhance_openapi_spec dt self opts spec = Some out"
    and "getitem spec ''paths'' = Some (JObj ps)" and "distinct (map fst ps)"
  shows "\<exists>ps1 ps4. those (map company_item ps) = Some ps1
           \<and> those (map (enforce_item self) (filter (\<lambda>(k, v). \<not> is_navigation_path k) ps1)) = Some ps4
           \<and> getitem out ''paths'' = Some (JObj ps4)"
proof -
  from assms(1) obtain s0 s1 s2 s3 s4 where
    r0: "set_sections dt opts spec = Some s0" and r1: "add_company_parameter s0 = Some s1"
    and r2: "remove_navigation_paths s1 = Some s2"
    and r3: "remove_system_fields_from_mutation_schemas s2 = Some s3"
    and r4: "enforce_edmx_capabilities self s3 = Some s4"
    and r5: "remove_unused_schema_variants self s4 = Some out"
    by (auto simp: enhance_openapi_spec_def bind_eq_Some_conv)
  from set_sections_paths [OF r0] assms(2) have p0: "getitem s0 ''paths'' = Some (JObj ps)" by simp
  with add_company_paths [OF r1] assms(3) obtain ps1 where
    c: "those (map company_item ps) = Some ps1" and p1: "getitem s1 ''paths'' = Some (JObj ps1)"
    by blast
  from p1 obtain k1 where s1: "s1 = JObj k1" and m1: "map_of k1 ''paths'' = Some (JObj ps1)"
    by (auto dest: getitem_SomeD)
  let ?ps2 = "filter (\<lambda>(k, v). \<not> is_navigation_path k) ps1"
  from remove_navigation_paths_paths [OF r2 [unfolded s1]] m1
  obtain k2 where s2: "s2 = JObj k2" and m2: "map_of k2 ''paths'' = Some (JObj ?ps2)"
    by (auto simp: update_conv')
  from scrub_paths [OF r3 [unfolded s2]] m2
  obtain k3 where s3: "s3 = JObj k3" and m3: "map_of k3 ''paths'' = Some (JObj ?ps2)"
    by auto
  from enforce_paths [OF r4 [unfolded s3]] m3
  obtain k4 ps4 where s4: "s4 = JObj k4" and m4: "map_of k4 ''paths'' = Some (JObj ps4)"
    and e: "those (map (enforce_item self) ?ps2) = Some ps4"
    by (auto simp: update_conv' enforce_item_empty)
  from prune_paths [OF r5 [unfolded s4]] m4 have "getitem out ''paths'' = Some (JObj ps4)"
    by auto
  with c e show ?thesis by blast
qed

lemma split_no_sep: "c \<notin> set s \<Longrightarrow> str_split c s = [s]"
  by (induction s) auto

lemma split_first: "c \<notin> set s0 \<Longrightarrow> str_split c (s0 @ c # rest) = s0 # str_split c rest"
  by (induction s0) auto

lemma split_join:
  "\<forall>s \<in> set (s0 # segs). c \<notin> set s \<Longrightarrow>
   str_split c (s0 @ concat (map (\<lambda>s. c # s) segs)) = s0 # segs"
  by (induction segs arbitrary: s0) (auto simp: split_no_sep split_first)

lemma scoped_not_system: "\<not> is_system_endpoint (scoped_path (s # segs))"
  by (simp add: is_system_endpoint_def scoped_path_def system_prefixes_def startswith_def)

lemma scoped_navigation:
  assumes "segs \<noteq> []" and "\<forall>s \<in> set segs. CHR ''/'' \<notin> set s"
  shows "is_navigation_path (scoped_path segs) = navigation_levels (filter (\<lambda>s. s \<noteq> []) segs)"
proof -
  from assms(1) obtain s0 rest where segs: "segs = s0 # rest" by (cases segs) auto
  have d: "drop 17 (scoped_path (s0 # rest)) = s0 @ concat (map (\<lambda>s. CHR ''/'' # s) rest)"
    by (simp add: scoped_path_def)
  have p: "startswith (scoped_path (s0 # rest)) ''/companies({id})/''"
    by (simp add: scoped_path_def startswith_def)
  from assms(2) have "str_split CHR ''/'' (drop 17 (scoped_path (s0 # rest))) = s0 # rest"
    unfolding d segs by (rule split_join)
  with p scoped_not_system [of s0 rest] show ?thesis
    by (simp add: is_navigation_path_def segs)
qed

lemma set_sections_returns:
  assumes "map_of kvs ''components'' = None \<or> (\<exists>c. map_of kvs ''components'' = Some (JObj c))"
  shows "\<exists>kvs0 c0. set_sections dt opts (JObj kvs) = Some (JObj kvs0)
           \<and> map_of kvs0 ''paths'' = map_of kvs ''paths''
           \<and> map_of kvs0 ''components'' = Some (JObj c0)
           \<and> component kvs0 ''schemas'' = component kvs ''schemas''
           \<and> component kvs0 ''parameters'' = component kvs ''parameters''"
  using assms by (auto simp: set_sections_def component_def update_conv')

lemma define_company_parameter_returns:
  assumes "map_of kvs ''components'' = Some (JObj c)"
    and "component kvs ''parameters'' = None \<or> (\<exists>p. component kvs ''parameters'' = Some (JObj p))"
  shows "\<exists>kvs1 c1 p1. define_company_parameter (JObj kvs) = Some (JObj kvs1)
           \<and> map_of kvs1 ''paths'' = map_of kvs ''paths''
           \<and> map_of kvs1 ''components'' = Some (JObj c1)
           \<and> component kvs1 ''schemas'' = component kvs ''schemas''
           \<and> component kvs1 ''parameters'' = Some (JObj p1)"
  using assms by (auto simp: define_company_parameter_def component_def update_conv')

lemma add_company_to_paths_returns:
  assumes "map_of kvs ''paths'' = Some (JObj ps)" and "distinct (map fst ps)"
    and "those (map company_item ps) = Some ps1"
  shows "add_company_to_paths (JObj kvs) = Some (JObj (AList.update ''paths'' (JObj ps1) kvs))"
  using assms by (simp add: add_company_to_paths_def foldM_company)

lemma remove_navigation_paths_returns:
  assumes "map_of kvs ''paths'' = Some (JObj ps)"
  shows "remove_navigation_paths (JObj kvs)
           = Some (JObj (AList.update ''paths'' (JObj (filter (\<lambda>(k, v). \<not> is_navigation_path k) ps)) kvs))"
proof -
  have "filter (\<lambda>(k, v). k \<notin> set (filter is_navigation_path (map fst ps))) ps
        = filter (\<lambda>(k, v). \<not> is_navigation_path k) ps"
    by (rule filter_cong) force+
  with assms show ?thesis
    by (simp add: remove_navigation_paths_def py_iter_def those_str_of_keys foldM_remove_path)
qed

lemma scrub_returns:
  assumes "map_of kvs ''components'' = Some (JObj c)" and "component kvs ''schemas'' = None"
  shows "remove_system_fields_from_mutation_schemas (JObj kvs) = Some (JObj kvs)"
  using assms by (simp add: remove_system_fields_from_mutation_schemas_def component_def)

lemma enforce_returns:
  assumes "map_of kvs ''paths'' = Some (JObj ps)"
    and "those (map (enforce_item self) ps) = Some ps'"
  shows "\<exists>kvs'. enforce_edmx_capabilities self (JObj kvs) = Some (JObj kvs')
           \<and> map_of kvs' ''paths'' = Some (JObj ps')
           \<and> map_of kvs' ''components'' = map_of kvs ''components''"
proof (cases "edmx_capabilities self = []")
  case True
  with assms(2) have "ps' = ps" by (simp add: enforce_item_empty)
  with True assms(1) show ?thesis by (simp add: enforce_edmx_capabilities_def)
next
  case False
  with assms show ?thesis
    by (simp add: enforce_edmx_capabilities_def enforce_item_nonempty update_conv')
qed

lemma prune_returns:
  assumes "map_of kvs ''components'' = Some (JObj c)" and "component kvs ''schemas'' = None"
  shows "remove_unused_schema_variants self (JObj kvs) = Some (JObj kvs)"
  using assms by (simp add: remove_unused_schema_variants_def component_def)

lemma enhance_returns:
  assumes p: "map_of kvs ''paths'' = Some (JObj ps)" and d: "distinct (map fst ps)"
    and c: "map_of kvs ''components'' = None \<or> (\<exists>c. map_of kvs ''components'' = Some (JObj c))"
    and sch: "component kvs ''schemas'' = None"
    and par: "component kvs ''parameters'' = None \<or> (\<exists>p. component kvs ''parameters'' = Some (JObj p))"
    and c1: "those (map company_item ps) = Some ps1"
    and e: "those (map (enforce_item self) (filter (\<lambda>(k, v). \<not> is_navigation_path k) ps1)) = Some ps4"
  shows "\<exists>kvs' c' p'. enhance_openapi_spec dt self opts (JObj kvs) = Some (JObj kvs')
           \<and> map_of kvs' ''paths'' = Some (JObj ps4)
           \<and> map_of kvs' ''components'' = Some (JObj c')
           \<and> component kvs' ''schemas'' = None
           \<and> component kvs' ''parameters'' = Some (JObj p')"
proof -
  from set_sections_returns [OF c, of dt opts] p sch par obtain kvs0 c0 where
    r0: "set_sections dt opts (JObj kvs) = Some (JObj kvs0)"
    and p0: "map_of kvs0 ''paths'' = Some (JObj ps)" and c0: "map_of kvs0 ''components'' = Some (JObj c0)"
    and sch0: "component kvs0 ''schemas'' = None"
    and par0: "component kvs0 ''parameters'' = None \<or> (\<exists>p. component kvs0 ''parameters'' = Some (JObj p))"
    by auto
  from define_company_parameter_returns [OF c0 par0] p0 sch0 obtain kvsm cm pm where
    rm: "define_company_parameter (JObj kvs0) = Some (JObj kvsm)"
    and pm: "map_of kvsm ''paths'' = Some (JObj ps)" and cm: "map_of kvsm ''components'' = Some (JObj cm)"
    and schm: "component kvsm ''schemas'' = None" and parm: "component kvsm ''parameters'' = Some (JObj pm)"
    by auto
  let ?k1 = "AList.update ''paths'' (JObj ps1) kvsm"
  have r1: "add_company_parameter (JObj kvs0) = Some (JObj ?k1)"
    by (simp add: add_company_parameter_def rm add_company_to_paths_returns [OF pm d c1])
  let ?ps2 = "filter (\<lambda>(k, v). \<not> is_navigation_path k) ps1"
  let ?k2 = "AList.update ''paths'' (JObj ?ps2) kvsm"
  have "map_of ?k1 ''paths'' = Some (JObj ps1)" by (simp add: update_conv')
  then have r2: "remove_navigation_paths (JObj ?k1) = Some (JObj ?k2)"
    by (simp add: remove_navigation_paths_returns)
  have c2: "map_of ?k2 ''components'' = Some (JObj cm)" by (simp add: update_conv' cm)
  have sch2: "component ?k2 ''schemas'' = None" using schm by (simp add: component_def update_conv')
  have par2: "component ?k2 ''parameters'' = Some (JObj pm)" using parm by (simp add: component_def update_conv')
  have r3: "remove_system_fields_from_mutation_schemas (JObj ?k2) = Some (JObj ?k2)"
    by (rule scrub_returns [OF c2 sch2])
  have p2: "map_of ?k2 ''paths'' = Some (JObj ?ps2)" by (simp add: update_conv')
  from enforce_returns [OF p2 e] obtain k4 where
    r4: "enforce_edmx_capabilities self (JObj ?k2) = Some (JObj k4)"
    and p4: "map_of k4 ''paths'' = Some (JObj ps4)" and c4: "map_of k4 ''components'' = Some (JObj cm)"
    using c2 by auto
  have sch4: "component k4 ''schemas'' = None" using sch2 c2 c4 by (simp add: component_def)
  have par4: "component k4 ''parameters'' = Some (JObj pm)" using par2 c2 c4 by (simp add: component_def)
  have r5: "remove_unused_schema_variants self (JObj k4) = Some (JObj k4)"
    by (rule prune_returns [OF c4 sch4])
  have "enhance_openapi_spec dt self opts (JObj kvs) = Some (JObj k4)"
    by (simp add: enhance_openapi_spec_def r0 r1 r2 r3 r4 r5)
  with p4 c4 sch4 par4 show ?thesis by blast
qed
lemma keys_filter:
  "fst ` set (filter (\<lambda>(k, v). P k) xs) = {k \<in> fst ` set xs. P k}"
  by (induction xs) auto

lemma pipeline_path_names:
  assumes "enhance_openapi_spec dt self opts spec = Some out"
    and "getitem spec ''paths'' = Some (JObj ps)" and "distinct (map fst ps)"
  shows "\<exists>ps'. getitem out ''paths'' = Some (JObj ps')
           \<and> map fst ps' = filter (\<lambda>k. \<not> is_navigation_path k) (map fst ps)"
proof -
  from pipeline_paths [OF assms] obtain ps1 ps4 where
    c: "those (map company_item ps) = Some ps1"
    and e: "those (map (enforce_item self) (filter (\<lambda>(k, v). \<not> is_navigation_path k) ps1)) = Some ps4"
    and out: "getitem out ''paths'' = Some (JObj ps4)"
    by blast
  have k1: "map fst ps1 = map fst ps"
    using c by (rule those_list_all2_keys) (rule company_item_fst)
  have "map fst ps4 = map fst (filter (\<lambda>(k, v). \<not> is_navigation_path k) ps1)"
    using e by (rule those_list_all2_keys) (rule enforce_item_fst)
  also have "\<dots> = filter (\<lambda>k. \<not> is_navigation_path k) (map fst ps1)"
    by (simp add: filter_map comp_def case_prod_unfold)
  finally show ?thesis using out k1 by simp
qed

section \<open>The example document through the pipeline\<close>

lemma scenario_self_eq:
  "scenario_self
     = \<lparr>edmx_capabilities = [(''Items'', \<lparr>insertable = True, updatable = True, deletable = False\<rparr>)],
        entity_type_capabilities =
          [(''Item'', \<lparr>insertable = True, updatable = True, deletable = False\<rparr>)]\<rparr>"
  by (simp add: scenario_self_def scenario_converter)

lemma example_skipped:
  "company_skipped ''/companies({id})/Items({id})''"
  "company_skipped ''/companies({id})/Items({id})/lines''"
  "\<not> company_skipped ''/items''"
  "\<not> company_skipped ''/orders''"
  by (simp_all add: company_skipped_def company_skipped_prefixes_def startswith_def)

lemma example_navigation:
  "\<not> is_navigation_path ''/companies({id})/Items({id})''"
  "is_navigation_path ''/companies({id})/Items({id})/lines''"
  "\<not> is_navigation_path ''/items''"
  "\<not> is_navigation_path ''/orders''"
  by (simp_all add: is_navigation_path_def is_system_endpoint_def system_prefixes_def
      navigation_levels_def parenthesized_def startswith_def endswith_def suffix_to_prefix
      strip_def lstrip_def rstrip_def)

lemma example_path_strings:
  "extract_entity_set_from_path ''/items'' = Some ''items''"
  "extract_entity_set_from_path ''/orders'' = Some ''orders''"
  "last_segment_of ''/items'' = ''items''"
  "last_segment_of ''/orders'' = ''orders''"
  "\<not> str_in ''/Item'' ''/items''"
  "\<not> str_in ''/Item'' ''/orders''"
  by (simp_all add: extract_entity_set_from_path_def strip_key_def lstrip_def rstrip_def
      last_segment_of_def startswith_def str_in_def sublist_code(3))

lemma scenario_path_capabilities:
  "path_capabilities scenario_self ''/companies({id})/Items({id})'' item
     = Some (Some \<lparr>insertable = True, updatable = True, deletable = False\<rparr>)"
  by (simp add: path_capabilities_def resolved_capabilities_def override_capabilities_def
      lookup_named_def extract_entity_set_from_path_def strip_key_def lstrip_def scenario_self_eq
      all_allowed_def startswith_def str_in_def sublist_code(3))

lemma example_path_capabilities:
  "path_capabilities scenario_self ''/items'' (JObj [(''get'', JObj []), (''parameters'', ps)])
     = Some None"
  "path_capabilities scenario_self ''/orders''
     (JObj [(''get'', JObj []), (''delete'', JObj []), (''parameters'', ps)]) = Some None"
  by (simp_all add: path_capabilities_def resolved_capabilities_def override_capabilities_def
      lookup_named_def example_path_strings scenario_self_eq all_allowed_def
      extract_entity_type_from_path_methods_def method_entity_type_def)

lemma scenario_self_nonempty: "edmx_capabilities scenario_self \<noteq> []"
  by (simp add: scenario_self_eq)

lemma example_company_items:
  "those (map company_item example_paths)
     = Some [(''/companies({id})/Items({id})'',
                JObj [(''get'', JObj []), (''patch'', JObj []), (''delete'', JObj [])]),
             (''/companies({id})/Items({id})/lines'', JObj [(''get'', JObj [])]),
             (''/items'', JObj [(''get'', JObj []), (''parameters'', JArr [company_ref, company_ref])]),
             (''/orders'', JObj [(''get'', JObj []), (''delete'', JObj []),
                                 (''parameters'', JArr [company_ref])])]"
  by (simp add: example_paths_def company_item_def example_skipped add_company_to_path_def
      list_append_def)

lemma example_enforce_items:
  "those (map (enforce_item scenario_self)
       (filter (\<lambda>(k, v). \<not> is_navigation_path k)
          [(''/companies({id})/Items({id})'',
              JObj [(''get'', JObj []), (''patch'', JObj []), (''delete'', JObj [])]),
           (''/companies({id})/Items({id})/lines'', JObj [(''get'', JObj [])]),
           (''/items'', JObj [(''get'', JObj []), (''parameters'', JArr [company_ref, company_ref])]),
           (''/orders'', JObj [(''get'', JObj []), (''delete'', JObj []),
                               (''parameters'', JArr [company_ref])])]))
     = Some example_out_paths"
  by (simp add: example_out_paths_def example_navigation enforce_item_def scenario_self_nonempty
      enforce_path_def remove_disallowed_def scenario_path_capabilities example_path_capabilities
      remove_method_def delitem_def)

lemma example_run:
  "\<exists>kvs' c' p'. enhance_openapi_spec dt scenario_self opts example_document = Some (JObj kvs')
      \<and> map_of kvs' ''paths'' = Some (JObj example_out_paths)
      \<and> map_of kvs' ''components'' = Some (JObj c')
      \<and> component kvs' ''schemas'' = None
      \<and> component kvs' ''parameters'' = Some (JObj p')"
  unfolding example_document_def
  by (rule enhance_returns [OF _ _ _ _ _ example_company_items example_enforce_items])
    (simp_all add: example_paths_def component_def)

section \<open>Path pruning: properties\<close>

text \<open>
  C4. Among the company-scoped paths, path pruning removes exactly the navigation paths.
  For a path \<open>/companies({id})/s1/.../sn\<close> with non-empty segments, after one run of the
  pipeline: with three or more segments it is absent; with two segments of which the
  second is not wrapped in parentheses it is absent; with one segment (the collection
  \<open>/companies({id})/X\<close> or the keyed member \<open>/companies({id})/X(...)\<close>), or with two
  segments of which the second is wrapped in parentheses, it is present exactly when the
  base document has it.
\<close>

theorem navigation_paths_pruned:
  assumes "enhance_openapi_spec dt self opts spec = Some out"
    and "getitem spec ''paths'' = Some (JObj ps)" and "distinct (map fst ps)"
    and "segs \<noteq> []" and "\<forall>s \<in> set segs. s \<noteq> [] \<and> CHR ''/'' \<notin> set s"
  shows "\<exists>ps'. getitem out ''paths'' = Some (JObj ps')
     \<and> (3 \<le> length segs \<longrightarrow> scoped_path segs \<notin> fst ` set ps')
     \<and> (length segs = 2 \<and> \<not> parenthesized (segs ! 1) \<longrightarrow> scoped_path segs \<notin> fst ` set ps')
     \<and> (length segs = 1 \<or> length segs = 2 \<and> parenthesized (segs ! 1) \<longrightarrow>
          (scoped_path segs \<in> fst ` set ps' \<longleftrightarrow> scoped_path segs \<in> fst ` set ps))"
proof -
  from pipeline_path_names [OF assms(1-3)] obtain ps' where
    out: "getitem out ''paths'' = Some (JObj ps')"
    and keys: "map fst ps' = filter (\<lambda>k. \<not> is_navigation_path k) (map fst ps)"
    by blast
  have "set (map fst ps') = {k \<in> set (map fst ps). \<not> is_navigation_path k}"
    unfolding keys by auto
  then have mem: "scoped_path segs \<in> fst ` set ps'
      \<longleftrightarrow> scoped_path segs \<in> fst ` set ps \<and> \<not> is_navigation_path (scoped_path segs)"
    by auto
  from assms(5) have "filter (\<lambda>s. s \<noteq> []) segs = segs" by (simp add: filter_id_conv)
  with scoped_navigation [of segs] assms(4,5)
  have nav: "is_navigation_path (scoped_path segs) = navigation_levels segs" by simp
  from out mem nav show ?thesis
    by (auto simp: navigation_levels_def)
qed

theorem navigation_paths_pruned_witness:
  "\<exists>out ps'. enhance_openapi_spec plain_texts scenario_self no_options example_document = Some out
     \<and> getitem out ''paths'' = Some (JObj ps')
     \<and> scoped_path [''Items({id})'', ''lines''] \<notin> fst ` set ps'
     \<and> scoped_path [''Items({id})''] \<in> fst ` set ps'"
proof -
  from example_run [of plain_texts no_options] obtain kvs' where
    run: "enhance_openapi_spec plain_texts scenario_self no_options example_document = Some (JObj kvs')"
    by blast
  have p: "getitem example_document ''paths'' = Some (JObj example_paths)"
    by (simp add: example_document_def)
  have d: "distinct (map fst example_paths)"
    by (simp add: example_paths_def)
  have par: "\<not> parenthesized ''lines''"
    by (simp add: parenthesized_def startswith_def)
  from navigation_paths_pruned [OF run p d, of "[''Items({id})'', ''lines'']"] par
  obtain ps' where out: "getitem (JObj kvs') ''paths'' = Some (JObj ps')"
    and gone: "scoped_path [''Items({id})'', ''lines''] \<notin> fst ` set ps'"
    by auto
  from navigation_paths_pruned [OF run p d, of "[''Items({id})'']"] out
  have "scoped_path [''Items({id})''] \<in> fst ` set ps'
      \<longleftrightarrow> scoped_path [''Items({id})''] \<in> fst ` set example_paths"
    by auto
  moreover have "scoped_path [''Items({id})''] \<in> fst ` set example_paths"
    by (simp add: scoped_path_def example_paths_def)
  ultimately show ?thesis using run out gone by blast
qed

section \<open>Parameter injection and the scenario: properties\<close>

lemma those_map_of_fwd:
  assumes "those (map f xs) = Some ys" and "\<And>x y. f x = Some y \<Longrightarrow> fst y = fst x"
    and "map_of xs k = Some x"
  shows "\<exists>y. map_of ys k = Some y \<and> f (k, x) = Some (k, y)"
proof -
  from assms(1) have "list_all2 (\<lambda>x y. f x = Some y) xs ys" by (simp add: those_map_Some)
  then show ?thesis using assms(3)
  proof (induction rule: list_all2_induct)
    case Nil
    then show ?case by simp
  next
    case (Cons x' xs y' ys)
    from Cons(1) have "fst y' = fst x'" by (rule assms(2))
    with Cons show ?case by (cases x'; cases y') (auto split: if_splits)
  qed
qed

lemma remove_method_keeps:
  "remove_method allowed m a = Some b \<Longrightarrow> k \<noteq> m \<Longrightarrow> getitem b k = getitem a k"
  by (cases a) (auto simp: remove_method_def bind_eq_Some_conv delitem_def split: if_splits)

lemma enforce_item_keeps:
  assumes "enforce_item self (p, a) = Some (p', b)" and "k \<notin> {''post'', ''patch'', ''delete''}"
  shows "getitem b k = getitem a k"
proof (cases "edmx_capabilities self = []")
  case True
  with assms show ?thesis by (simp add: enforce_item_def)
next
  case False
  with assms(1) have e: "enforce_path self (p, a) = Some (p', b)" by (simp add: enforce_item_def)
  then obtain caps where c: "path_capabilities self p a = Some caps"
    by (auto simp: enforce_path_def bind_eq_Some_conv)
  show ?thesis
  proof (cases caps)
    case None
    with e c show ?thesis by (simp add: enforce_path_def)
  next
    case (Some cp)
    with e c obtain o1 o2 where "remove_method (insertable cp) ''post'' a = Some o1"
      and "remove_method (updatable cp) ''patch'' o1 = Some o2"
      and "remove_method (deletable cp) ''delete'' o2 = Some b"
      by (auto simp: enforce_path_def remove_disallowed_def bind_eq_Some_conv)
    with assms(2) show ?thesis by (auto dest!: remove_method_keeps [where k = k])
  qed
qed

lemma add_company_to_path_parameters:
  assumes "add_company_to_path v = Some v'"
  shows "\<exists>xs. (getitem v ''parameters'' = None \<and> xs = [] \<or> getitem v ''parameters'' = Some (JArr xs))
           \<and> getitem v' ''parameters'' = Some (JArr (xs @ [company_ref]))
           \<and> (\<forall>k. k \<noteq> ''parameters'' \<longrightarrow> getitem v' k = getitem v k)"
proof -
  from assms obtain kvs where v: "v = JObj kvs"
    by (cases v) (auto simp: add_company_to_path_def bind_eq_Some_conv py_in_def setitem_def getitem_def split: if_splits)
  show ?thesis
  proof (cases "map_of kvs ''parameters''")
    case None
    with assms show ?thesis
      by (auto simp: v add_company_to_path_def list_append_def update_conv')
  next
    case (Some ps)
    with assms obtain xs where "ps = JArr xs"
      by (cases ps) (auto simp: v add_company_to_path_def list_append_def)
    with Some assms show ?thesis
      by (auto simp: v add_company_to_path_def list_append_def update_conv')
  qed
qed

text \<open>
  C3, as the code has it. Parameter injection skips every path that starts with one of
  eight prefixes, among them \<open>/companies\<close>, so every company-scoped path is skipped;
  to every other path it appends one reference, whatever the array already holds. After
  one run, a skipped path of the output has its \<open>parameters\<close> entry as the base
  document gave it (the same array, or none), hence as many references to the shared
  parameter; a path that is not skipped has the array of the base document with one
  reference appended, hence one more: exactly one when the base document gave it none.
\<close>

theorem company_reference_per_path:
  assumes "enhance_openapi_spec dt self opts spec = Some out"
    and "getitem spec ''paths'' = Some (JObj ps)" and "distinct (map fst ps)"
    and "getitem out ''paths'' = Some (JObj ps')" and "map_of ps' p = Some item'"
  shows "\<exists>item. map_of ps p = Some item
     \<and> company_refs item' = (if company_skipped p then company_refs item else Suc (company_refs item))
     \<and> (company_skipped p \<longrightarrow> getitem item' ''parameters'' = getitem item ''parameters'')
     \<and> (\<not> company_skipped p \<longrightarrow>
          (\<exists>xs. (getitem item ''parameters'' = None \<and> xs = [] \<or> getitem item ''parameters'' = Some (JArr xs))
             \<and> getitem item' ''parameters'' = Some (JArr (xs @ [company_ref]))))"
proof -
  from pipeline_paths [OF assms(1-3)] assms(4) obtain ps1 where
    c: "those (map company_item ps) = Some ps1"
    and e: "those (map (enforce_item self) (filter (\<lambda>(k, v). \<not> is_navigation_path k) ps1)) = Some ps'"
    by auto
  have "\<exists>x. map_of (filter (\<lambda>(k, v). \<not> is_navigation_path k) ps1) p = Some x
      \<and> enforce_item self (p, x) = Some (p, item')"
    by (rule those_map_of [OF e _ assms(5)]) (rule enforce_item_fst)
  then obtain item1 where
    m1: "map_of (filter (\<lambda>(k, v). \<not> is_navigation_path k) ps1) p = Some item1"
    and e1: "enforce_item self (p, item1) = Some (p, item')"
    by blast
  from m1 have m1': "map_of ps1 p = Some item1" by (simp add: map_of_filter_keys split: if_splits)
  have "\<exists>x. map_of ps p = Some x \<and> company_item (p, x) = Some (p, item1)"
    by (rule those_map_of [OF c _ m1']) (rule company_item_fst)
  then obtain item where
    m: "map_of ps p = Some item" and c1: "company_item (p, item) = Some (p, item1)"
    by blast
  have par: "getitem item' ''parameters'' = getitem item1 ''parameters''"
    using e1 by (rule enforce_item_keeps) simp
  show ?thesis
  proof (cases "company_skipped p")
    case True
    with c1 have "item1 = item" by (simp add: company_item_def)
    with m par True show ?thesis by (auto simp: company_refs_def)
  next
    case False
    with c1 have "add_company_to_path item = Some item1" by (simp add: company_item_def)
    from add_company_to_path_parameters [OF this] par m False show ?thesis
      by (auto simp: company_refs_def)
  qed
qed

text \<open>
  C3 as stated fails on the example: \<open>/companies({id})/Items({id})\<close> is none of the
  listed system endpoints and ends with no reference, and \<open>/items\<close>, which came with
  one reference, ends with two.
\<close>

theorem company_reference_counterexample:
  "\<exists>out ps' a b. enhance_openapi_spec plain_texts scenario_self no_options example_document = Some out
     \<and> getitem out ''paths'' = Some (JObj ps')
     \<and> ''/companies({id})/Items({id})'' \<notin> set claimed_system_endpoints
     \<and> map_of ps' ''/companies({id})/Items({id})'' = Some a \<and> company_refs a = 0
     \<and> ''/items'' \<notin> set claimed_system_endpoints
     \<and> map_of ps' ''/items'' = Some b \<and> company_refs b = 2"
proof -
  from example_run [of plain_texts no_options] obtain kvs' where
    run: "enhance_openapi_spec plain_texts scenario_self no_options example_document = Some (JObj kvs')"
    and out: "map_of kvs' ''paths'' = Some (JObj example_out_paths)"
    by blast
  have a: "map_of example_out_paths ''/companies({id})/Items({id})''
             = Some (JObj [(''get'', JObj []), (''patch'', JObj [])])"
    by (simp add: example_out_paths_def)
  have a0: "company_refs (JObj [(''get'', JObj []), (''patch'', JObj [])]) = 0"
    by (simp add: company_refs_def)
  have b: "map_of example_out_paths ''/items''
             = Some (JObj [(''get'', JObj []), (''parameters'', JArr [company_ref, company_ref])])"
    by (simp add: example_out_paths_def)
  have b2: "company_refs (JObj [(''get'', JObj []), (''parameters'', JArr [company_ref, company_ref])]) = 2"
    by (simp add: company_refs_def)
  have n: "''/companies({id})/Items({id})'' \<notin> set claimed_system_endpoints"
    "''/items'' \<notin> set claimed_system_endpoints"
    by (simp_all add: claimed_system_endpoints_def)
  from out have out': "getitem (JObj kvs') ''paths'' = Some (JObj example_out_paths)" by simp
  from run out' a a0 b b2 n show ?thesis by blast
qed

theorem company_reference_per_path_witness:
  "\<exists>out ps' item'. enhance_openapi_spec plain_texts scenario_self no_options example_document = Some out
     \<and> getitem out ''paths'' = Some (JObj ps') \<and> map_of ps' ''/orders'' = Some item'
     \<and> company_refs item' = 1"
proof -
  from example_run [of plain_texts no_options] obtain kvs' where
    run: "enhance_openapi_spec plain_texts scenario_self no_options example_document = Some (JObj kvs')"
    and out: "getitem (JObj kvs') ''paths'' = Some (JObj example_out_paths)"
    by auto
  have p: "getitem example_document ''paths'' = Some (JObj example_paths)"
    by (simp add: example_document_def)
  have d: "distinct (map fst example_paths)"
    by (simp add: example_paths_def)
  have m: "map_of example_out_paths ''/orders''
             = Some (JObj [(''get'', JObj []), (''delete'', JObj []), (''parameters'', JArr [company_ref])])"
    by (simp add: example_out_paths_def)
  have i: "map_of example_paths ''/orders'' = Some (JObj [(''get'', JObj []), (''delete'', JObj [])])"
    by (simp add: example_paths_def)
  have z: "company_refs (JObj [(''get'', JObj []), (''delete'', JObj [])]) = 0"
    by (simp add: company_refs_def)
  from company_reference_per_path [OF run p d out m] i z example_skipped(4)
  have "company_refs (JObj [(''get'', JObj []), (''delete'', JObj []), (''parameters'', JArr [company_ref])]) = 1"
    by auto
  with run out m show ?thesis by blast
qed

lemma scenario_enforce:
  "enforce_item scenario_self (''/companies({id})/Items({id})'', JObj item)
     = Some (''/companies({id})/Items({id})'', JObj (AList.delete ''delete'' item))"
proof (cases "map_of item ''delete''")
  case None
  then have "''delete'' \<notin> fst ` set item" by (simp add: map_of_eq_None_iff)
  then have "AList.delete ''delete'' item = item" by simp
  with None show ?thesis
    by (simp add: enforce_item_def scenario_self_nonempty enforce_path_def remove_disallowed_def
        scenario_path_capabilities remove_method_def)
next
  case (Some d)
  then have "''delete'' \<in> set (map fst item)" by (metis map_of_eq_None_iff option.distinct(1) set_map)
  with Some show ?thesis
    by (simp add: enforce_item_def scenario_self_nonempty enforce_path_def remove_disallowed_def
        scenario_path_capabilities remove_method_def delitem_def)
qed

text \<open>
  C1, as the code has it. With the metadata of the scenario, in any base document with
  the path \<open>/companies({id})/Items({id})\<close>, the path item after one run is the item
  of the base document without its \<open>delete\<close> operation: \<open>get\<close>, \<open>patch\<close> and
  every other key are as before, so no reference to the shared \<open>company\<close> parameter
  is added (the path starts with \<open>/companies\<close>, which parameter injection skips).
\<close>

theorem scenario_delete_removed:
  assumes "enhance_openapi_spec dt scenario_self opts spec = Some out"
    and "getitem spec ''paths'' = Some (JObj ps)" and "distinct (map fst ps)"
    and "map_of ps scenario_path = Some (JObj item)"
  shows "\<exists>ps' item'. getitem out ''paths'' = Some (JObj ps')
     \<and> map_of ps' scenario_path = Some (JObj item')
     \<and> item' = AList.delete ''delete'' item
     \<and> (\<forall>k. map_of item' k = (if k = ''delete'' then None else map_of item k))"
proof -
  from pipeline_paths [OF assms(1-3)] obtain ps1 ps' where
    c: "those (map company_item ps) = Some ps1"
    and e: "those (map (enforce_item scenario_self) (filter (\<lambda>(k, v). \<not> is_navigation_path k) ps1)) = Some ps'"
    and out: "getitem out ''paths'' = Some (JObj ps')"
    by blast
  have "\<exists>y. map_of ps1 scenario_path = Some y \<and> company_item (scenario_path, JObj item) = Some (scenario_path, y)"
    by (rule those_map_of_fwd [OF c _ assms(4)]) (rule company_item_fst)
  then have m1: "map_of ps1 scenario_path = Some (JObj item)"
    by (auto simp: company_item_def scenario_path_def example_skipped)
  then have m2: "map_of (filter (\<lambda>(k, v). \<not> is_navigation_path k) ps1) scenario_path = Some (JObj item)"
    by (simp add: map_of_filter_keys scenario_path_def example_navigation)
  have "\<exists>y. map_of ps' scenario_path = Some y
      \<and> enforce_item scenario_self (scenario_path, JObj item) = Some (scenario_path, y)"
    by (rule those_map_of_fwd [OF e _ m2]) (rule enforce_item_fst)
  then have "map_of ps' scenario_path = Some (JObj (AList.delete ''delete'' item))"
    by (auto simp: scenario_path_def scenario_enforce)
  with out show ?thesis by (auto simp: delete_conv')
qed

lemma scenario_run:
  "\<exists>kvs'. enhance_openapi_spec dt scenario_self opts scenario_document = Some (JObj kvs')
      \<and> map_of kvs' ''paths'' = Some (JObj [(scenario_path, JObj [(''get'', JObj []), (''patch'', JObj [])])])"
proof -
  have c: "those (map company_item [(scenario_path, JObj [(''get'', JObj []), (''patch'', JObj []), (''delete'', JObj [])])])
      = Some [(scenario_path, JObj [(''get'', JObj []), (''patch'', JObj []), (''delete'', JObj [])])]"
    by (simp add: company_item_def scenario_path_def example_skipped)
  have e: "those (map (enforce_item scenario_self) (filter (\<lambda>(k, v). \<not> is_navigation_path k)
        [(scenario_path, JObj [(''get'', JObj []), (''patch'', JObj []), (''delete'', JObj [])])]))
      = Some [(scenario_path, JObj [(''get'', JObj []), (''patch'', JObj [])])]"
    by (simp add: scenario_path_def example_navigation scenario_enforce)
  have "\<exists>kvs' c' p'. enhance_openapi_spec dt scenario_self opts scenario_document = Some (JObj kvs')
      \<and> map_of kvs' ''paths'' = Some (JObj [(scenario_path, JObj [(''get'', JObj []), (''patch'', JObj [])])])
      \<and> map_of kvs' ''components'' = Some (JObj c')
      \<and> component kvs' ''schemas'' = None
      \<and> component kvs' ''parameters'' = Some (JObj p')"
    unfolding scenario_document_def
    by (rule enhance_returns [OF _ _ _ _ _ c e]) (simp_all add: component_def)
  then show ?thesis by blast
qed

theorem scenario_delete_removed_witness:
  "\<exists>out ps'. enhance_openapi_spec plain_texts scenario_self no_options scenario_document = Some out
     \<and> getitem out ''paths'' = Some (JObj ps')
     \<and> map_of ps' scenario_path = Some (JObj [(''get'', JObj []), (''patch'', JObj [])])"
proof -
  from scenario_run [of plain_texts no_options] obtain kvs' where
    run: "enhance_openapi_spec plain_texts scenario_self no_options scenario_document = Some (JObj kvs')"
    by blast
  have p: "getitem scenario_document ''paths''
      = Some (JObj [(scenario_path, JObj [(''get'', JObj []), (''patch'', JObj []), (''delete'', JObj [])])])"
    by (simp add: scenario_document_def)
  have d: "distinct (map fst [(scenario_path, JObj [(''get'', JObj []), (''patch'', JObj []), (''delete'', JObj [])])])"
    by simp
  have m: "map_of [(scenario_path, JObj [(''get'', JObj []), (''patch'', JObj []), (''delete'', JObj [])])] scenario_path
      = Some (JObj [(''get'', JObj []), (''patch'', JObj []), (''delete'', JObj [])])"
    by simp
  from scenario_delete_removed [OF run p d m] obtain ps' where
    out: "getitem (JObj kvs') ''paths'' = Some (JObj ps')"
    and "map_of ps' scenario_path
      = Some (JObj (AList.delete ''delete'' [(''get'', JObj []), (''patch'', JObj []), (''delete'', JObj [])]))"
    by blast
  then have "map_of ps' scenario_path = Some (JObj [(''get'', JObj []), (''patch'', JObj [])])"
    by simp
  with run out show ?thesis by blast
qed

text \<open>
  C1 as stated fails on the scenario: the path item of the output has no \<open>parameters\<close>
  array at all, hence no reference to the shared parameter.
\<close>

theorem scenario_company_reference_counterexample:
  "\<exists>out ps' item. enhance_openapi_spec plain_texts scenario_self no_options scenario_document = Some out
     \<and> getitem out ''paths'' = Some (JObj ps')
     \<and> map_of ps' scenario_path = Some item
     \<and> getitem item ''parameters'' = None \<and> company_refs item = 0"
proof -
  from scenario_run [of plain_texts no_options] obtain kvs' where
    run: "enhance_openapi_spec plain_texts scenario_self no_options scenario_document = Some (JObj kvs')"
    and out: "map_of kvs' ''paths'' = Some (JObj [(scenario_path, JObj [(''get'', JObj []), (''patch'', JObj [])])])"
    by blast
  from out have out': "getitem (JObj kvs') ''paths''
      = Some (JObj [(scenario_path, JObj [(''get'', JObj []), (''patch'', JObj [])])])"
    by simp
  have m: "map_of [(scenario_path, JObj [(''get'', JObj []), (''patch'', JObj [])])] scenario_path
      = Some (JObj [(''get'', JObj []), (''patch'', JObj [])])"
    by simp
  have "getitem (JObj [(''get'', JObj []), (''patch'', JObj [])]) ''parameters'' = None"
    and "company_refs (JObj [(''get'', JObj []), (''patch'', JObj [])]) = 0"
    by (simp_all add: company_refs_def)
  with run out' m show ?thesis by blast
qed

section \<open>The override pass: properties\<close>

lemma find_first:
  assumes "xs = pre @ x # post" and "P x" and "\<forall>y \<in> set pre. \<not> P y"
  shows "List.find P xs = Some x"
  using assms(3) unfolding assms(1) by (induction pre) (auto simp: assms(2))

lemma find_none: "\<forall>y \<in> set xs. \<not> P y \<Longrightarrow> List.find P xs = None"
  by (induction xs) auto

text \<open>
  C7, as the code has it. After the three steps, the override pass goes through the
  entity types in the order of the mapping and stops at the first one that has a
  restricted flag and whose bare name, with \<open>/\<close> before it, occurs in the path. The
  record of that type then decides the removals, whatever the three steps resolved. When
  there is no such type, the result of the three steps stands.
\<close>

theorem override_takes_precedence:
  "(entity_type_capabilities self = pre @ (t, c) # post
      \<and> str_in (''/'' @ t) path \<and> \<not> all_allowed c
      \<and> (\<forall>(t', c') \<in> set pre. \<not> (str_in (''/'' @ t') path \<and> \<not> all_allowed c'))
      \<and> resolved_capabilities self path path_obj = Some r
    \<longrightarrow> path_capabilities self path path_obj = Some (Some c)
        \<and> enforce_path self (path, path_obj) = map_option (Pair path) (remove_disallowed c path_obj))
   \<and> ((\<forall>(t', c') \<in> set (entity_type_capabilities self).
          \<not> (str_in (''/'' @ t') path \<and> \<not> all_allowed c'))
    \<longrightarrow> path_capabilities self path path_obj = resolved_capabilities self path path_obj)"
proof (intro conjI impI)
  assume a: "entity_type_capabilities self = pre @ (t, c) # post
      \<and> str_in (''/'' @ t) path \<and> \<not> all_allowed c
      \<and> (\<forall>(t', c') \<in> set pre. \<not> (str_in (''/'' @ t') path \<and> \<not> all_allowed c'))
      \<and> resolved_capabilities self path path_obj = Some r"
  let ?P = "\<lambda>(entity_type_name, entity_capabilities).
      str_in (''/'' @ entity_type_name) path \<and> \<not> all_allowed entity_capabilities"
  from a have "List.find ?P (entity_type_capabilities self) = Some (t, c)"
    by (intro find_first [where pre = pre and post = post]) auto
  then have o: "override_capabilities self path = Some c"
    by (simp add: override_capabilities_def)
  with a show pc: "path_capabilities self path path_obj = Some (Some c)"
    by (simp add: path_capabilities_def)
  then show "enforce_path self (path, path_obj) = map_option (Pair path) (remove_disallowed c path_obj)"
    by (simp add: enforce_path_def)
next
  assume "\<forall>(t', c') \<in> set (entity_type_capabilities self).
          \<not> (str_in (''/'' @ t') path \<and> \<not> all_allowed c')"
  then have "List.find (\<lambda>(entity_type_name, entity_capabilities).
      str_in (''/'' @ entity_type_name) path \<and> \<not> all_allowed entity_capabilities)
      (entity_type_capabilities self) = None"
    by (intro find_none) auto
  then have "override_capabilities self path = None"
    by (simp add: override_capabilities_def)
  then show "path_capabilities self path path_obj = resolved_capabilities self path path_obj"
    by (cases "resolved_capabilities self path path_obj") (simp_all add: path_capabilities_def)
qed

lemma override_strings:
  "extract_entity_set_from_path ''/Orders({id})/Items'' = Some ''Orders''"
  "str_in ''/Item'' ''/Orders({id})/Items''"
  "\<not> str_in ''/Order'' ''/salesItems({id})''"
  "\<not> str_in ''/Item'' ''/salesItems({id})''"
  "str_in ''Item'' ''/salesItems({id})''"
  "extract_entity_set_from_path ''/salesItems({id})'' = Some ''salesItems''"
  "last_segment_of ''/salesItems({id})'' = ''salesItems''"
  by (simp_all add: extract_entity_set_from_path_def strip_key_def lstrip_def rstrip_def
      last_segment_of_def startswith_def str_in_def sublist_code(3))

theorem override_takes_precedence_witness:
  "resolved_capabilities override_self ''/Orders({id})/Items'' (JObj [(''delete'', JObj [])])
     = Some (Some \<lparr>insertable = True, updatable = True, deletable = True\<rparr>)
   \<and> path_capabilities override_self ''/Orders({id})/Items'' (JObj [(''delete'', JObj [])])
     = Some (Some \<lparr>insertable = True, updatable = True, deletable = False\<rparr>)
   \<and> enforce_path override_self (''/Orders({id})/Items'', JObj [(''delete'', JObj [])])
     = Some (''/Orders({id})/Items'', JObj [])"
proof -
  let ?c = "\<lparr>insertable = True, updatable = True, deletable = False\<rparr>"
  let ?o = "\<lparr>insertable = True, updatable = True, deletable = True\<rparr>"
  have a: "entity_type_capabilities override_self = [(''Order'', ?o)] @ (''Item'', ?c) # []"
    by (simp add: override_self_def)
  have r: "resolved_capabilities override_self ''/Orders({id})/Items'' (JObj [(''delete'', JObj [])])
     = Some (Some ?o)"
    by (simp add: resolved_capabilities_def lookup_named_def override_strings override_self_def)
  have n: "\<not> all_allowed ?c" by (simp add: all_allowed_def)
  have pre: "\<forall>(t', c') \<in> set [(''Order'', ?o)]. \<not> (str_in (''/'' @ t') ''/Orders({id})/Items'' \<and> \<not> all_allowed c')"
    by (simp add: all_allowed_def)
  have s: "str_in (''/'' @ ''Item'') ''/Orders({id})/Items''"
    using override_strings(2) by simp
  have rm: "remove_disallowed ?c (JObj [(''delete'', JObj [])]) = Some (JObj [])"
    by (simp add: remove_disallowed_def remove_method_def delitem_def)
  from override_takes_precedence [of override_self "[(''Order'', ?o)]" "''Item''" ?c "[]"
      "''/Orders({id})/Items''" "JObj [(''delete'', JObj [])]" "Some ?o"] a s n pre r
  have "path_capabilities override_self ''/Orders({id})/Items'' (JObj [(''delete'', JObj [])]) = Some (Some ?c)
     \<and> enforce_path override_self (''/Orders({id})/Items'', JObj [(''delete'', JObj [])])
        = map_option (Pair ''/Orders({id})/Items'') (remove_disallowed ?c (JObj [(''delete'', JObj [])]))"
    by blast
  with r rm show ?thesis by simp
qed

text \<open>
  C7 as stated fails: the bare name \<open>Item\<close> of a restricted type occurs in
  \<open>/salesItems({id})\<close>, but not after a \<open>/\<close>; no record is found for the path and
  its \<open>delete\<close> operation stays.
\<close>

theorem override_needs_slash_counterexample:
  "str_in ''Item'' ''/salesItems({id})''
   \<and> map_of (entity_type_capabilities override_self) ''Item''
        = Some \<lparr>insertable = True, updatable = True, deletable = False\<rparr>
   \<and> \<not> all_allowed \<lparr>insertable = True, updatable = True, deletable = False\<rparr>
   \<and> path_capabilities override_self ''/salesItems({id})'' (JObj [(''delete'', JObj [])]) = Some None
   \<and> enforce_path override_self (''/salesItems({id})'', JObj [(''delete'', JObj [])])
        = Some (''/salesItems({id})'', JObj [(''delete'', JObj [])])"
proof -
  have pc: "path_capabilities override_self ''/salesItems({id})'' (JObj [(''delete'', JObj [])]) = Some None"
    by (simp add: path_capabilities_def resolved_capabilities_def override_capabilities_def
        lookup_named_def override_strings override_self_def all_allowed_def
        extract_entity_type_from_path_methods_def method_entity_type_def)
  then have "enforce_path override_self (''/salesItems({id})'', JObj [(''delete'', JObj [])])
        = Some (''/salesItems({id})'', JObj [(''delete'', JObj [])])"
    by (simp add: enforce_path_def)
  with pc show ?thesis
    by (simp add: override_strings override_self_def all_allowed_def)
qed

section \<open>Schema pruning: properties\<close>

lemma removed_iff:
  "name \<in> set all_schemas \<Longrightarrow>
   name \<in> all_schemas_to_remove self a b all_schemas \<longleftrightarrow> schema_removed self a b name"
  by (auto simp: all_schemas_to_remove_def schema_removed_def)

lemma prune_eq:
  assumes "map_of kvs ''paths'' = Some (JObj ps)" and "map_of kvs ''components'' = Some (JObj c)"
    and "map_of c ''schemas'' = Some (JObj schemas)"
  shows "remove_unused_schema_variants self (JObj kvs) =
    (case schemas_used_by ''post'' ps of
       None \<Rightarrow> None
     | Some post_refs \<Rightarrow>
        (case schemas_used_by ''patch'' ps of
           None \<Rightarrow> None
         | Some patch_refs \<Rightarrow>
             Some (JObj (AList.update ''components''
               (JObj (AList.update ''schemas''
                  (JObj (filter (\<lambda>(name, body). \<not> schema_removed self post_refs patch_refs name) schemas)) c))
               kvs))))"
proof -
  have f: "filter (\<lambda>(name, body). name \<notin> all_schemas_to_remove self a b (map fst schemas)) schemas
     = filter (\<lambda>(name, body). \<not> schema_removed self a b name) schemas" for a b
  proof (rule filter_cong)
    fix x assume "x \<in> set schemas"
    then have "fst x \<in> set (map fst schemas)" by simp
    then show "(case x of (name, body) \<Rightarrow> name \<notin> all_schemas_to_remove self a b (map fst schemas))
        = (case x of (name, body) \<Rightarrow> \<not> schema_removed self a b name)"
      by (cases x) (simp add: removed_iff)
  qed simp
  show ?thesis
    using assms by (simp add: remove_unused_schema_variants_def f split: option.splits)
qed

lemma not_both_suffixes: "endswith s ''-create'' \<Longrightarrow> \<not> endswith s ''-update''"
  by (auto simp: endswith_def suffix_def)

lemma suffix_stem:
  "endswith s suf \<Longrightarrow> s = take (length s - length suf) s @ suf"
  by (auto simp: endswith_def suffix_def)

lemma replace_suffix_only:
  assumes "c \<notin> set m"
  shows "str_replace (c # rest) [] (m @ c # rest) = m"
  using assms
proof (induction m)
  case Nil
  show ?case
    by (subst str_replace.simps) (simp add: str_replace.simps [of _ _ "[]"])
next
  case (Cons x m)
  then have "x \<noteq> c" and IH: "str_replace (c # rest) [] (m @ c # rest) = m" by auto
  then show ?case
    by (subst str_replace.simps) simp
qed

lemma prefix_before_foreign:
  assumes "prefix p (a @ b # bs)" and "b \<notin> set p"
  shows "prefix p a"
proof -
  from assms(1) have "prefix p a \<or> (\<exists>us. p = a @ us \<and> prefix us (b # bs))"
    by (simp add: prefix_append)
  then show ?thesis
  proof
    assume "\<exists>us. p = a @ us \<and> prefix us (b # bs)"
    then obtain us where p: "p = a @ us" and u: "prefix us (b # bs)" by blast
    show ?thesis
    proof (cases us)
      case Nil
      with p show ?thesis by simp
    next
      case (Cons u us')
      with u have "u = b" by simp
      with p Cons assms(2) show ?thesis by simp
    qed
  qed
qed

lemma restricted_agree:
  assumes suf: "endswith s (CHR ''-'' # rest)" and len: "length rest = 6"
    and dash: "CHR ''-'' \<notin> set (take (length s - 7) s)"
  shows "strip_nav (str_replace (CHR ''-'' # rest) [] s) = base_entity_type s"
    and "startswith s ''Microsoft.NAV.'' \<Longrightarrow> drop 14 (take (length s - 7) s) = base_entity_type s"
proof -
  let ?m = "take (length s - 7) s"
  from suffix_stem [OF suf] len have s: "s = ?m @ CHR ''-'' # rest" by simp
  have "str_replace (CHR ''-'' # rest) [] (?m @ CHR ''-'' # rest) = ?m"
    using dash by (rule replace_suffix_only)
  with s have "str_replace (CHR ''-'' # rest) [] s = ?m" by simp
  then show "strip_nav (str_replace (CHR ''-'' # rest) [] s) = base_entity_type s"
    by (simp add: base_entity_type_def)
  assume "startswith s ''Microsoft.NAV.''"
  with s have "prefix ''Microsoft.NAV.'' (?m @ CHR ''-'' # rest)" by (simp add: startswith_def)
  then have "prefix ''Microsoft.NAV.'' ?m" by (rule prefix_before_foreign) simp
  then show "drop 14 ?m = base_entity_type s"
    by (simp add: base_entity_type_def strip_nav_def startswith_def)
qed

lemma restricted_one_suffix:
  assumes c: "endswith s (CHR ''-'' # rest)" and len: "length rest = 6"
    and dash: "CHR ''-'' \<notin> set (take (length s - 7) s)"
  shows "capability_based_removal self (CHR ''-'' # rest) flag s
           \<longleftrightarrow> (\<exists>c. map_of (entity_type_capabilities self) (base_entity_type s) = Some c \<and> \<not> flag c)"
    and "startswith s ''Microsoft.NAV.'' \<Longrightarrow>
         map_of (entity_type_capabilities self) (drop 14 (take (length s - 7) s))
           = map_of (entity_type_capabilities self) (base_entity_type s)"
proof -
  from restricted_agree(1) [OF c len dash]
  show "capability_based_removal self (CHR ''-'' # rest) flag s
           \<longleftrightarrow> (\<exists>c. map_of (entity_type_capabilities self) (base_entity_type s) = Some c \<and> \<not> flag c)"
    by (simp add: capability_based_removal_def split: option.splits)
  assume "startswith s ''Microsoft.NAV.''"
  from restricted_agree(2) [OF c len dash this]
  show "map_of (entity_type_capabilities self) (drop 14 (take (length s - 7) s))
           = map_of (entity_type_capabilities self) (base_entity_type s)"
    by simp
qed

lemma force_remove_cases:
  "force_remove self s \<longleftrightarrow>
     startswith s ''Microsoft.NAV.''
     \<and> (\<exists>c. map_of (entity_type_capabilities self) (drop 14 (take (length s - 7) s)) = Some c
           \<and> (endswith s ''-create'' \<and> \<not> insertable c \<or> endswith s ''-update'' \<and> \<not> updatable c))"
  by (cases "map_of (entity_type_capabilities self) (drop 14 (take (length s - 7) s))")
    (auto simp: force_remove_def)

lemma schema_removed_spec:
  assumes "endswith s ''-create'' \<or> endswith s ''-update''"
    and "CHR ''-'' \<notin> set (take (length s - 7) s)"
  shows "schema_removed self a b s \<longleftrightarrow>
     (endswith s ''-create'' \<and> s \<notin> a \<or> endswith s ''-update'' \<and> s \<notin> b)
     \<or> capability_restricted self s"
  using assms(1)
proof
  assume c: "endswith s ''-create''"
  then have u: "\<not> endswith s ''-update''" by (rule not_both_suffixes)
  have len: "length ''create'' = 6" by simp
  note r = restricted_one_suffix [OF c len assms(2), of self]
  have cr: "capability_restricted self s
      \<longleftrightarrow> (\<exists>c. map_of (entity_type_capabilities self) (base_entity_type s) = Some c \<and> \<not> insertable c)"
    using c u by (simp add: capability_restricted_def)
  have fr: "force_remove self s \<Longrightarrow> capability_restricted self s"
    unfolding force_remove_cases cr using r(2) u by auto
  have "schema_removed self a b s
      \<longleftrightarrow> s \<notin> a \<or> capability_based_removal self ''-create'' insertable s \<or> force_remove self s"
    using c u by (simp add: schema_removed_def)
  with r(1) [of insertable] cr fr c u show ?thesis by blast
next
  assume c: "endswith s ''-update''"
  then have u: "\<not> endswith s ''-create''" using not_both_suffixes by blast
  have len: "length ''update'' = 6" by simp
  note r = restricted_one_suffix [OF c len assms(2), of self]
  have cr: "capability_restricted self s
      \<longleftrightarrow> (\<exists>c. map_of (entity_type_capabilities self) (base_entity_type s) = Some c \<and> \<not> updatable c)"
    using c u by (simp add: capability_restricted_def)
  have fr: "force_remove self s \<Longrightarrow> capability_restricted self s"
    unfolding force_remove_cases cr using r(2) u by auto
  have "schema_removed self a b s
      \<longleftrightarrow> s \<notin> b \<or> capability_based_removal self ''-update'' updatable s \<or> force_remove self s"
    using c u by (simp add: schema_removed_def)
  with r(1) [of updatable] cr fr c u show ?thesis by blast
qed

lemma component_SomeD:
  "component kvs k = Some v \<Longrightarrow> \<exists>c. map_of kvs ''components'' = Some (JObj c) \<and> map_of c k = Some v"
  by (auto simp: component_def split: option.splits json.splits)

lemma pointers_item:
  assumes "schema_ref_target k v = None \<Longrightarrow>
             extract_schema_refs v = {n. \<exists>ptr \<in> set (pointers v). pointer_target ptr = Some n}"
  shows "(case schema_ref_target k v of Some n \<Rightarrow> {n} | None \<Rightarrow> extract_schema_refs v)
      = {n. \<exists>ptr \<in> set (case v of JStr s \<Rightarrow> if k = ''$ref'' then [s] else [] | _ \<Rightarrow> pointers v).
              pointer_target ptr = Some n}"
proof (cases v)
  case (JStr s)
  then show ?thesis
    by (simp add: schema_ref_target_def pointer_target_def)
next
  case JNull
  with assms show ?thesis by (simp add: schema_ref_target_def)
next
  case (JBool b)
  with assms show ?thesis by (simp add: schema_ref_target_def)
next
  case (JInt i)
  with assms show ?thesis by (simp add: schema_ref_target_def)
next
  case (JFloat r)
  with assms show ?thesis by (simp add: schema_ref_target_def)
next
  case (JArr xs)
  with assms show ?thesis by (simp add: schema_ref_target_def)
next
  case (JObj kvs)
  with assms show ?thesis by (simp add: schema_ref_target_def)
qed

lemma refs_pointers:
  "extract_schema_refs j = {n. \<exists>ptr \<in> set (pointers j). pointer_target ptr = Some n}"
proof (induction j rule: extract_schema_refs.induct)
  case (1 kvs)
  have step: "(case schema_ref_target k v of Some n \<Rightarrow> {n} | None \<Rightarrow> extract_schema_refs v)
      = {n. \<exists>ptr \<in> set (case v of JStr s \<Rightarrow> if k = ''$ref'' then [s] else [] | _ \<Rightarrow> pointers v).
              pointer_target ptr = Some n}"
    if "(k, v) \<in> set kvs" for k v
    by (rule pointers_item) (rule 1 [OF that refl])
  show ?case
  proof (rule set_eqI)
    fix n
    have "n \<in> extract_schema_refs (JObj kvs) \<longleftrightarrow>
        (\<exists>(k, v) \<in> set kvs. n \<in> (case schema_ref_target k v of Some n \<Rightarrow> {n} | None \<Rightarrow> extract_schema_refs v))"
      by (auto split: prod.splits)
    also have "\<dots> \<longleftrightarrow> (\<exists>(k, v) \<in> set kvs. n \<in> {n. \<exists>ptr \<in> set (case v of JStr s \<Rightarrow> if k = ''$ref'' then [s] else [] | _ \<Rightarrow> pointers v).
              pointer_target ptr = Some n})"
      using step by blast
    also have "\<dots> \<longleftrightarrow> n \<in> {n. \<exists>ptr \<in> set (pointers (JObj kvs)). pointer_target ptr = Some n}"
      by (simp add: Bex_def) blast
    finally show "n \<in> extract_schema_refs (JObj kvs) \<longleftrightarrow>
        n \<in> {n. \<exists>ptr \<in> set (pointers (JObj kvs)). pointer_target ptr = Some n}" .
  qed
next
  case (2 xs)
  then show ?case by auto
qed simp_all


lemma method_refs_char:
  assumes "method_refs m obj = Some r"
  shows "r = {n. \<exists>body. getitem obj m = Some body \<and> n \<in> extract_schema_refs body}"
proof (cases obj)
  case (JObj kvs)
  with assms show ?thesis
    by (cases "map_of kvs m") (auto simp: method_refs_def)
next
  case (JArr xs)
  with assms show ?thesis
    by (auto simp: method_refs_def py_in_def getitem_def split: if_splits)
next
  case (JStr s)
  with assms show ?thesis
    by (auto simp: method_refs_def py_in_def getitem_def split: if_splits)
qed (use assms in \<open>simp_all add: method_refs_def py_in_def\<close>)

lemma those_method_refs:
  assumes "list_all2 (\<lambda>x r. method_refs m (snd x) = Some r) ps refs"
  shows "\<Union> (set refs) = {n. \<exists>(path, item) \<in> set ps. \<exists>body. getitem item m = Some body
           \<and> n \<in> extract_schema_refs body}"
  using assms
proof (induction rule: list_all2_induct)
  case Nil
  show ?case by simp
next
  case (Cons x xs r rs)
  from method_refs_char [OF Cons(1)]
  have r: "r = {n. \<exists>body. getitem (snd x) m = Some body \<and> n \<in> extract_schema_refs body}" .
  show ?case
  proof (rule set_eqI)
    fix n
    have "n \<in> \<Union> (set (r # rs)) \<longleftrightarrow> n \<in> r \<or> n \<in> \<Union> (set rs)" by simp
    also have "\<dots> \<longleftrightarrow> (\<exists>body. getitem (snd x) m = Some body \<and> n \<in> extract_schema_refs body)
        \<or> (\<exists>(path, item) \<in> set xs. \<exists>body. getitem item m = Some body \<and> n \<in> extract_schema_refs body)"
      unfolding Cons.IH using r by simp
    also have "\<dots> \<longleftrightarrow> (\<exists>(path, item) \<in> set (x # xs). \<exists>body. getitem item m = Some body
           \<and> n \<in> extract_schema_refs body)"
      by (cases x) simp
    finally show "n \<in> \<Union> (set (r # rs)) \<longleftrightarrow> n \<in> {n. \<exists>(path, item) \<in> set (x # xs). \<exists>body. getitem item m = Some body
           \<and> n \<in> extract_schema_refs body}"
      by simp
  qed
qed

lemma used_referenced:
  assumes "schemas_used_by m ps = Some a"
  shows "n \<in> a \<longleftrightarrow> referenced_by m ps n"
proof -
  from assms obtain refs where t: "those (map (\<lambda>(path, path_obj). method_refs m path_obj) ps) = Some refs"
    and a: "a = \<Union> (set refs)"
    by (auto simp: schemas_used_by_def bind_eq_Some_conv)
  from t have "list_all2 (\<lambda>x r. (case x of (path, path_obj) \<Rightarrow> method_refs m path_obj) = Some r) ps refs"
    by (simp add: those_map_Some)
  then have "list_all2 (\<lambda>x r. method_refs m (snd x) = Some r) ps refs"
    by (simp add: case_prod_beta)
  from those_method_refs [OF this] a show ?thesis
    by (simp add: referenced_by_def refs_pointers)
qed

lemma replace_absent:
  "old \<noteq> [] \<Longrightarrow> \<not> sublist old s \<Longrightarrow> str_replace old new s = s"
proof (induction s)
  case Nil
  then show ?case by (subst str_replace.simps) simp
next
  case (Cons x xs)
  from Cons.prems(2) have np: "\<not> prefix old (x # xs)" by (auto dest: prefix_imp_sublist)
  from Cons.prems(2) have "\<not> sublist old xs" by (auto simp: sublist_Cons_right)
  with Cons have "str_replace old new xs = xs" by simp
  with np Cons.prems(1) show ?case by (subst str_replace.simps) simp
qed

lemma pointer_target_plain:
  assumes "\<not> str_in ''#/components/schemas/'' name"
  shows "pointer_target (''#/components/schemas/'' @ name) = Some name"
proof -
  have "str_replace ''#/components/schemas/'' [] (''#/components/schemas/'' @ name)
      = str_replace ''#/components/schemas/'' [] name"
    by (subst str_replace.simps) simp
  also have "\<dots> = name"
    using assms by (intro replace_absent) (simp_all add: str_in_def)
  finally show ?thesis
    by (simp add: pointer_target_def startswith_def)
qed

text \<open>
  C8. The schema-pruning stage, on a document with paths, deletes a schema whose name
  ends in \<open>-create\<close> or \<open>-update\<close> exactly when it is unreferenced or
  capability-restricted. Unreferenced: no path has a \<open>post\<close> operation (for a
  \<open>-create\<close> schema; \<open>patch\<close> for a \<open>-update\<close> schema) whose body holds, at
  any depth of its dictionaries and lists, a \<open>$ref\<close> pointer to the schema, that is
  the schema's name after \<open>#/components/schemas/\<close>. Capability-restricted: the base
  entity type of a \<open>-create\<close> schema is not insertable, that of a \<open>-update\<close>
  schema not updatable; such a schema goes, referenced or not. The base entity type is
  read off names of the conventional form, with no \<open>-\<close> before the suffix.
\<close>

theorem suffixed_schema_deleted_iff:
  assumes "remove_unused_schema_variants self (JObj kvs) = Some out"
    and "map_of kvs ''paths'' = Some (JObj ps)"
    and "component kvs ''schemas'' = Some (JObj schemas)"
    and "s \<in> fst ` set schemas"
    and "endswith s ''-create'' \<or> endswith s ''-update''"
    and "CHR ''-'' \<notin> set (take (length s - 7) s)"
  shows "\<exists>kvs' schemas'.
       out = JObj kvs' \<and> component kvs' ''schemas'' = Some (JObj schemas')
     \<and> (s \<notin> fst ` set schemas' \<longleftrightarrow>
           (endswith s ''-create'' \<and> \<not> referenced_by ''post'' ps s
            \<or> endswith s ''-update'' \<and> \<not> referenced_by ''patch'' ps s)
           \<or> capability_restricted self s)"
proof -
  from component_SomeD [OF assms(3)] obtain c where
    c: "map_of kvs ''components'' = Some (JObj c)" and sc: "map_of c ''schemas'' = Some (JObj schemas)"
    by blast
  from assms(1) prune_eq [OF assms(2) c sc, of self] obtain a b where
    a: "schemas_used_by ''post'' ps = Some a" and b: "schemas_used_by ''patch'' ps = Some b"
    and out: "out = JObj (AList.update ''components''
               (JObj (AList.update ''schemas''
                  (JObj (filter (\<lambda>(name, body). \<not> schema_removed self a b name) schemas)) c)) kvs)"
    by (auto split: option.splits)
  let ?schemas' = "filter (\<lambda>(name, body). \<not> schema_removed self a b name) schemas"
  have comp: "component (AList.update ''components'' (JObj (AList.update ''schemas'' (JObj ?schemas') c)) kvs)
      ''schemas'' = Some (JObj ?schemas')"
    by (simp add: component_def update_conv')
  have "s \<notin> fst ` set ?schemas' \<longleftrightarrow> schema_removed self a b s"
    using assms(4) by (subst keys_filter) simp
  also have "\<dots> \<longleftrightarrow> (endswith s ''-create'' \<and> s \<notin> a \<or> endswith s ''-update'' \<and> s \<notin> b)
           \<or> capability_restricted self s"
    by (rule schema_removed_spec [OF assms(5,6)])
  also have "\<dots> \<longleftrightarrow> (endswith s ''-create'' \<and> \<not> referenced_by ''post'' ps s
            \<or> endswith s ''-update'' \<and> \<not> referenced_by ''patch'' ps s)
           \<or> capability_restricted self s"
    by (simp only: used_referenced [OF a] used_referenced [OF b])
  finally show ?thesis using out comp by blast
qed

text \<open>
  C9. The schema-pruning stage keeps every schema whose name ends neither in
  \<open>-create\<close> nor in \<open>-update\<close>: it is in the schema map afterwards, with the body it
  had before.
\<close>

theorem read_schemas_kept:
  assumes "remove_unused_schema_variants self (JObj kvs) = Some out"
    and "component kvs ''schemas'' = Some (JObj schemas)"
    and "\<not> endswith s ''-create''" and "\<not> endswith s ''-update''"
  shows "\<exists>kvs' schemas'. out = JObj kvs' \<and> component kvs' ''schemas'' = Some (JObj schemas')
     \<and> map_of schemas' s = map_of schemas s"
proof (cases "map_of kvs ''paths''")
  case None
  with assms(1) have "out = JObj kvs" by (simp add: remove_unused_schema_variants_def)
  with assms(2) show ?thesis by blast
next
  case (Some paths)
  from component_SomeD [OF assms(2)] obtain c where
    c: "map_of kvs ''components'' = Some (JObj c)" and sc: "map_of c ''schemas'' = Some (JObj schemas)"
    by blast
  from assms(1) Some c sc obtain ps where "paths = JObj ps"
    by (cases paths) (auto simp: remove_unused_schema_variants_def items_def)
  with Some have p: "map_of kvs ''paths'' = Some (JObj ps)" by simp
  from assms(1) prune_eq [OF p c sc, of self] obtain a b where
    out: "out = JObj (AList.update ''components''
               (JObj (AList.update ''schemas''
                  (JObj (filter (\<lambda>(name, body). \<not> schema_removed self a b name) schemas)) c)) kvs)"
    by (auto split: option.splits)
  let ?schemas' = "filter (\<lambda>(name, body). \<not> schema_removed self a b name) schemas"
  have comp: "component (AList.update ''components'' (JObj (AList.update ''schemas'' (JObj ?schemas') c)) kvs)
      ''schemas'' = Some (JObj ?schemas')"
    by (simp add: component_def update_conv')
  have "\<not> schema_removed self a b s"
    using assms(3,4) by (simp add: schema_removed_def force_remove_def)
  then have "map_of ?schemas' s = map_of schemas s"
    by (simp add: map_of_filter_keys)
  with out comp show ?thesis by blast
qed

lemma example_ref_names:
  "str_replace ''#/components/schemas/'' [] ''#/components/schemas/Microsoft.NAV.item-create''
     = ''Microsoft.NAV.item-create''"
  "str_replace ''#/components/schemas/'' [] ''#/components/schemas/Microsoft.NAV.item-update''
     = ''Microsoft.NAV.item-update''"
  by (simp_all add: str_replace.simps)

lemma body_refs:
  "startswith r ''#/components/schemas/'' \<Longrightarrow>
   extract_schema_refs (body_with_ref r) = {str_replace ''#/components/schemas/'' [] r}"
  by (simp add: body_with_ref_def schema_ref_target_def)

lemma schema_example_used:
  "schemas_used_by ''post'' schema_example_paths = Some {''Microsoft.NAV.item-create''}"
  "schemas_used_by ''patch'' schema_example_paths = Some {''Microsoft.NAV.item-update''}"
  by (simp_all add: schemas_used_by_def schema_example_paths_def method_refs_def body_refs
      example_ref_names startswith_def)

lemma schema_example_run:
  "\<exists>out. remove_unused_schema_variants readonly_self (JObj schema_example) = Some (JObj out)"
  by (simp add: prune_eq [where ps = schema_example_paths and schemas = schema_example_schemas
        and c = "[(''schemas'', JObj schema_example_schemas)]"] schema_example_def schema_example_used)

lemma schema_example_facts:
  "endswith ''Microsoft.NAV.item-create'' ''-create''"
  "endswith ''Microsoft.NAV.item-update'' ''-update''"
  "CHR ''-'' \<notin> set (take (length ''Microsoft.NAV.item-create'' - 7) ''Microsoft.NAV.item-create'')"
  "CHR ''-'' \<notin> set (take (length ''Microsoft.NAV.item-update'' - 7) ''Microsoft.NAV.item-update'')"
  "base_entity_type ''Microsoft.NAV.item-create'' = ''item''"
  "base_entity_type ''Microsoft.NAV.item-update'' = ''item''"
  "\<not> endswith ''Microsoft.NAV.item'' ''-create''"
  "\<not> endswith ''Microsoft.NAV.item'' ''-update''"
  by (simp_all add: endswith_def suffix_to_prefix base_entity_type_def strip_nav_def startswith_def)

theorem suffixed_schema_deleted_iff_witness:
  "\<exists>out schemas'. remove_unused_schema_variants readonly_self (JObj schema_example) = Some (JObj out)
     \<and> component out ''schemas'' = Some (JObj schemas')
     \<and> ''Microsoft.NAV.item-create'' \<notin> fst ` set schemas'
     \<and> ''Microsoft.NAV.item-update'' \<in> fst ` set schemas'"
proof -
  from schema_example_run obtain out where
    run: "remove_unused_schema_variants readonly_self (JObj schema_example) = Some (JObj out)"
    by blast
  have p: "map_of schema_example ''paths'' = Some (JObj schema_example_paths)"
    by (simp add: schema_example_def)
  have c: "component schema_example ''schemas'' = Some (JObj schema_example_schemas)"
    by (simp add: schema_example_def component_def)
  have m1: "''Microsoft.NAV.item-create'' \<in> fst ` set schema_example_schemas"
    and m2: "''Microsoft.NAV.item-update'' \<in> fst ` set schema_example_schemas"
    by (simp_all add: schema_example_schemas_def)
  have r1: "capability_restricted readonly_self ''Microsoft.NAV.item-create''"
    by (simp add: capability_restricted_def schema_example_facts readonly_self_def)
  have r2: "\<not> capability_restricted readonly_self ''Microsoft.NAV.item-update''"
    using not_both_suffixes [of "''Microsoft.NAV.item-update''"]
    by (auto simp: capability_restricted_def schema_example_facts readonly_self_def)
  from suffixed_schema_deleted_iff [OF run p c m1 _ schema_example_facts(3)] schema_example_facts(1) r1
  obtain schemas' where s: "component out ''schemas'' = Some (JObj schemas')"
    and d: "''Microsoft.NAV.item-create'' \<notin> fst ` set schemas'"
    by auto
  have ref: "referenced_by ''patch'' schema_example_paths ''Microsoft.NAV.item-update''"
    using used_referenced [OF schema_example_used(2), of "''Microsoft.NAV.item-update''"] by simp
  from suffixed_schema_deleted_iff [OF run p c m2 _ schema_example_facts(4)] schema_example_facts(2) r2
    ref s not_both_suffixes [of "''Microsoft.NAV.item-update''"]
  have "''Microsoft.NAV.item-update'' \<in> fst ` set schemas'"
    by auto
  with run s d show ?thesis by blast
qed

theorem read_schemas_kept_witness:
  "\<exists>out schemas'. remove_unused_schema_variants readonly_self (JObj schema_example) = Some (JObj out)
     \<and> component out ''schemas'' = Some (JObj schemas')
     \<and> map_of schemas' ''Microsoft.NAV.item'' = Some (JObj [(''type'', JStr ''object'')])"
proof -
  from schema_example_run obtain out where
    run: "remove_unused_schema_variants readonly_self (JObj schema_example) = Some (JObj out)"
    by blast
  have c: "component schema_example ''schemas'' = Some (JObj schema_example_schemas)"
    by (simp add: schema_example_def component_def)
  have m: "map_of schema_example_schemas ''Microsoft.NAV.item'' = Some (JObj [(''type'', JStr ''object'')])"
    by (simp add: schema_example_schemas_def)
  from read_schemas_kept [OF run c schema_example_facts(7,8)] m
  obtain schemas' where "component out ''schemas'' = Some (JObj schemas')"
    and "map_of schemas' ''Microsoft.NAV.item'' = Some (JObj [(''type'', JStr ''object'')])"
    by auto
  with run show ?thesis by blast
qed

section \<open>A second run: properties\<close>

lemma remove_method_obj:
  "remove_method allowed m (JObj kvs) = Some (JObj (if allowed then kvs else AList.delete m kvs))"
proof (cases "map_of kvs m")
  case None
  then have "m \<notin> fst ` set kvs" by (simp add: map_of_eq_None_iff)
  with None show ?thesis by (simp add: remove_method_def)
next
  case (Some v)
  then have "m \<in> set (map fst kvs)" by (metis map_of_eq_None_iff option.distinct(1) set_map)
  with Some show ?thesis by (simp add: remove_method_def delitem_def)
qed

lemma remove_method_other:
  "remove_method allowed m a = Some b \<Longrightarrow> \<forall>kvs. a \<noteq> JObj kvs \<Longrightarrow> b = a"
  by (cases a) (auto simp: remove_method_def bind_eq_Some_conv delitem_def split: if_splits)

lemma remove_disallowed_obj:
  "remove_disallowed c (JObj kvs) = Some (JObj (dels c kvs))"
  by (simp add: remove_disallowed_def remove_method_obj dels_def)

lemma remove_disallowed_other:
  assumes "remove_disallowed c a = Some b" and "\<forall>kvs. a \<noteq> JObj kvs"
  shows "b = a"
proof -
  from assms(1) obtain o1 o2 where 1: "remove_method (insertable c) ''post'' a = Some o1"
    and 2: "remove_method (updatable c) ''patch'' o1 = Some o2"
    and 3: "remove_method (deletable c) ''delete'' o2 = Some b"
    by (auto simp: remove_disallowed_def bind_eq_Some_conv)
  from remove_method_other [OF 1 assms(2)] have "o1 = a" .
  with remove_method_other [OF 2] assms(2) have "o2 = a" by simp
  with remove_method_other [OF 3] assms(2) show ?thesis by simp
qed

lemma dels_lookup:
  "map_of (dels c kvs) k =
     (if k = ''post'' \<and> \<not> insertable c \<or> k = ''patch'' \<and> \<not> updatable c \<or> k = ''delete'' \<and> \<not> deletable c
      then None else map_of kvs k)"
  by (simp add: dels_def delete_conv')

lemma dels_id:
  assumes "\<not> insertable c \<longrightarrow> map_of kvs ''post'' = None"
    and "\<not> updatable c \<longrightarrow> map_of kvs ''patch'' = None"
    and "\<not> deletable c \<longrightarrow> map_of kvs ''delete'' = None"
  shows "dels c kvs = kvs"
  using assms by (auto simp: dels_def map_of_eq_None_iff)

lemma met_cong:
  "map_of k m = map_of k' m \<Longrightarrow> method_entity_type m (JObj k) = method_entity_type m (JObj k')"
  by (simp add: method_entity_type_def)

lemma met_absent:
  "map_of k m = None \<Longrightarrow> method_entity_type m (JObj k) = Some None"
  by (simp add: method_entity_type_def)


lemma split_nonempty: "str_split c s \<noteq> []"
  by (induction s) (auto split: list.splits)

lemma split_two: "c \<in> set s \<Longrightarrow> \<exists>w v vs. str_split c s = w # v # vs"
proof (induction s)
  case Nil
  then show ?case by simp
next
  case (Cons x xs)
  show ?case
  proof (cases "x = c")
    case True
    obtain v vs where "str_split c xs = v # vs" using split_nonempty [of c xs] by (cases "str_split c xs") auto
    with True show ?thesis by simp
  next
    case False
    with Cons.prems have "c \<in> set xs" by simp
    from Cons.IH [OF this] obtain w v vs where "str_split c xs = w # v # vs" by blast
    with False show ?thesis by simp
  qed
qed

lemma split_last: "c \<in> set s \<Longrightarrow> \<exists>pre. s = pre @ c # last (str_split c s)"
proof (induction s)
  case Nil
  then show ?case by simp
next
  case (Cons x xs)
  show ?case
  proof (cases "c \<in> set xs")
    case True
    from Cons.IH [OF True] obtain pre where pre: "xs = pre @ c # last (str_split c xs)" by blast
    from split_two [OF True] obtain w v vs where w: "str_split c xs = w # v # vs" by blast
    then have "last (str_split c (x # xs)) = last (str_split c xs)" by simp
    with pre have "x # xs = (x # pre) @ c # last (str_split c (x # xs))" by simp
    then show ?thesis by blast
  next
    case False
    with Cons.prems have x: "x = c" by simp
    from False have "str_split c xs = [xs]" by (rule split_no_sep)
    with x have "x # xs = [] @ c # last (str_split c (x # xs))" by simp
    then show ?thesis by blast
  qed
qed

lemma split_head_prefix: "prefix (case str_split c s of [] \<Rightarrow> [] | w # ws \<Rightarrow> w) s"
  by (induction s) (auto split: list.splits)

lemma strip_key_prefix: "prefix (strip_key s) s"
  by (simp add: strip_key_def split_head_prefix)

lemma rstrip_prefix: "prefix (rstrip c s) s"
proof -
  have "rev (takeWhile (\<lambda>x. x = c) (rev s) @ dropWhile (\<lambda>x. x = c) (rev s)) = s"
    by (simp only: takeWhile_dropWhile_id rev_rev_ident)
  then have "rev (dropWhile (\<lambda>x. x = c) (rev s)) @ rev (takeWhile (\<lambda>x. x = c) (rev s)) = s"
    by (simp only: rev_append)
  then have "s = rstrip c s @ rev (takeWhile (\<lambda>x. x = c) (rev s))" by (simp only: rstrip_def)
  then show ?thesis by (rule prefixI)
qed

lemma last_segment_in_path:
  assumes "startswith p ''/''"
  shows "str_in (''/'' @ last_segment_of p) p"
proof -
  let ?q = "rstrip CHR ''/'' p"
  from assms obtain rest where p: "p = CHR ''/'' # rest" by (auto simp: startswith_def prefix_def)
  from rstrip_prefix [of "CHR ''/''" p] obtain tl where q: "p = ?q @ tl" by (auto simp: prefix_def)
  show ?thesis
  proof (cases "?q = []")
    case True
    then have "last_segment_of p = []" by (simp add: last_segment_of_def strip_key_def)
    then show ?thesis by (simp add: str_in_def p sublist_Cons_right)
  next
    case False
    with q p have "CHR ''/'' \<in> set ?q" by (cases ?q) auto
    from split_last [OF this] obtain pre where
      pre: "?q = pre @ CHR ''/'' # last (str_split CHR ''/'' ?q)" by blast
    let ?t = "last (str_split CHR ''/'' ?q)"
    from strip_key_prefix [of ?t] obtain r where r: "?t = strip_key ?t @ r" by (auto simp: prefix_def)
    have "p = pre @ (CHR ''/'' # strip_key ?t) @ (r @ tl)"
      using q pre r by (metis append.assoc append_Cons)
    then have "sublist (CHR ''/'' # strip_key ?t) p" unfolding sublist_def by blast
    then show ?thesis by (simp add: str_in_def last_segment_of_def)
  qed
qed

lemma override_none_allowed:
  assumes "override_capabilities self p = None"
    and "map_of (entity_type_capabilities self) t = Some c"
    and "str_in (''/'' @ t) p"
  shows "all_allowed c"
proof -
  from assms(2) have "(t, c) \<in> set (entity_type_capabilities self)" by (rule map_of_SomeD)
  with assms(1,3) show ?thesis
    by (auto simp: override_capabilities_def find_None_iff)
qed


lemma caps_second:
  assumes r1: "path_capabilities self p (JObj kb) = Some r1"
    and r2: "path_capabilities self p (JObj kc) = Some (Some c2)"
    and get: "map_of kc ''get'' = map_of kb ''get''"
    and patch: "map_of kc ''patch'' = None \<or> map_of kc ''patch'' = map_of kb ''patch''"
    and sl: "startswith p ''/''"
  shows "all_allowed c2 \<or> r1 = Some c2"
proof (cases "override_capabilities self p")
  case (Some co)
  from r1 have "r1 = Some co" unfolding path_capabilities_def Some by (auto simp: bind_eq_Some_conv)
  moreover from r2 have "c2 = co" unfolding path_capabilities_def Some by (auto simp: bind_eq_Some_conv)
  ultimately show ?thesis by simp
next
  case None
  with r1 r2 have s1: "resolved_capabilities self p (JObj kb) = Some r1"
    and s2: "resolved_capabilities self p (JObj kc) = Some (Some c2)"
    by (auto simp: path_capabilities_def bind_eq_Some_conv)
  show ?thesis
  proof (cases "lookup_named (edmx_capabilities self) (extract_entity_set_from_path p)")
    case (Some cs)
    from s1 have "r1 = Some cs" unfolding resolved_capabilities_def Some by simp
    moreover from s2 have "c2 = cs" unfolding resolved_capabilities_def Some by simp
    ultimately show ?thesis by simp
  next
    case n: None
    from s1 n obtain e1 where e1: "extract_entity_type_from_path_methods (JObj kb) = Some e1"
      and v1: "r1 = (case lookup_named (entity_type_capabilities self) e1 of
                       Some c \<Rightarrow> Some c
                     | None \<Rightarrow> map_of (entity_type_capabilities self) (last_segment_of p))"
      by (auto simp: resolved_capabilities_def bind_eq_Some_conv split: option.splits)
    from s2 n obtain e2 where e2: "extract_entity_type_from_path_methods (JObj kc) = Some e2"
      and v2: "Some c2 = (case lookup_named (entity_type_capabilities self) e2 of
                       Some c \<Rightarrow> Some c
                     | None \<Rightarrow> map_of (entity_type_capabilities self) (last_segment_of p))"
      by (auto simp: resolved_capabilities_def bind_eq_Some_conv split: option.splits)
    show ?thesis
    proof (cases "lookup_named (entity_type_capabilities self) e2")
      case None
      with v2 have "map_of (entity_type_capabilities self) (last_segment_of p) = Some c2" by simp
      with \<open>override_capabilities self p = None\<close> have "all_allowed c2"
        using last_segment_in_path [OF sl] by (rule override_none_allowed)
      then show ?thesis ..
    next
      case (Some c)
      with v2 have c: "c = c2" by simp
      have g: "method_entity_type ''get'' (JObj kc) = method_entity_type ''get'' (JObj kb)"
        using get by (rule met_cong)
      from e1 obtain g1 where g1: "method_entity_type ''get'' (JObj kb) = Some g1"
        by (auto simp: extract_entity_type_from_path_methods_def bind_eq_Some_conv)
      have x1: "Some e1 = (case g1 of Some t \<Rightarrow> Some (Some t) | None \<Rightarrow> method_entity_type ''patch'' (JObj kb))"
        using e1 g1 by (simp add: extract_entity_type_from_path_methods_def)
      have x2: "Some e2 = (case g1 of Some t \<Rightarrow> Some (Some t) | None \<Rightarrow> method_entity_type ''patch'' (JObj kc))"
        using e2 g g1 by (simp add: extract_entity_type_from_path_methods_def)
      have "e1 = e2"
      proof (cases g1)
        case (Some t)
        from x1 x2 show ?thesis unfolding Some by simp
      next
        case None
        from x1 x2 have p1: "method_entity_type ''patch'' (JObj kb) = Some e1"
          and p2: "method_entity_type ''patch'' (JObj kc) = Some e2"
          unfolding None by simp_all
        from patch show ?thesis
        proof
          assume "map_of kc ''patch'' = None"
          then have "method_entity_type ''patch'' (JObj kc) = Some None" by (rule met_absent)
          with p2 have "e2 = None" by simp
          with \<open>lookup_named (entity_type_capabilities self) e2 = Some c\<close> show ?thesis
            by (simp add: lookup_named_def)
        next
          assume "map_of kc ''patch'' = map_of kb ''patch''"
          then have "method_entity_type ''patch'' (JObj kc) = method_entity_type ''patch'' (JObj kb)"
            by (rule met_cong)
          with p1 p2 show ?thesis by simp
        qed
      qed
      with v1 Some c have "r1 = Some c2" by simp
      then show ?thesis ..
    qed
  qed
qed

lemma add_company_to_path_obj:
  assumes "add_company_to_path v = Some v'"
  shows "\<exists>kvs kvs'. v = JObj kvs \<and> v' = JObj kvs' \<and> (\<forall>k. k \<noteq> ''parameters'' \<longrightarrow> map_of kvs' k = map_of kvs k)"
proof -
  from assms obtain kvs where v: "v = JObj kvs"
    by (cases v) (auto simp: add_company_to_path_def bind_eq_Some_conv py_in_def setitem_def getitem_def split: if_splits)
  show ?thesis
  proof (cases "map_of kvs ''parameters''")
    case None
    with assms show ?thesis
      by (auto simp: v add_company_to_path_def list_append_def update_conv')
  next
    case (Some ps)
    with assms show ?thesis
      by (cases ps) (auto simp: v add_company_to_path_def list_append_def update_conv')
  qed
qed

lemma company_item_cases:
  assumes "company_item (p, a) = Some (p', c)"
  shows "c = a \<or> (\<exists>ka kc. a = JObj ka \<and> c = JObj kc \<and> (\<forall>k. k \<noteq> ''parameters'' \<longrightarrow> map_of kc k = map_of ka k))"
proof (cases "company_skipped p")
  case True
  with assms show ?thesis by (simp add: company_item_def)
next
  case False
  with assms have "add_company_to_path a = Some c" by (auto simp: company_item_def)
  from add_company_to_path_obj [OF this] show ?thesis by blast
qed

lemma enforce_path_second_run:
  assumes e1: "enforce_path self (p, b) = Some (p, i1)"
    and c: "company_item (p, i1) = Some (p, c)"
    and e2: "enforce_path self (p, c) = Some (p, i2)"
    and sl: "startswith p ''/''"
  shows "i2 = c"
proof (cases "\<exists>kb. b = JObj kb")
  case False
  from e1 have "i1 = b"
  proof (cases "path_capabilities self p b")
    case None
    with e1 show ?thesis by (simp add: enforce_path_def)
  next
    case (Some r)
    show ?thesis
    proof (cases r)
      case None
      with Some e1 show ?thesis by (simp add: enforce_path_def)
    next
      case (Some cp)
      with \<open>path_capabilities self p b = Some r\<close> e1 have "remove_disallowed cp b = Some i1"
        by (auto simp: enforce_path_def)
      with False show ?thesis by (auto dest: remove_disallowed_other)
    qed
  qed
  with company_item_cases [OF c] False have "c = b" by auto
  with e1 e2 \<open>i1 = b\<close> show ?thesis by simp
next
  case True
  then obtain kb where b: "b = JObj kb" ..
  from e1 obtain r1 where r1: "path_capabilities self p (JObj kb) = Some r1"
    by (auto simp: enforce_path_def b bind_eq_Some_conv)
  have i1: "i1 = JObj (case r1 of None \<Rightarrow> kb | Some c1 \<Rightarrow> dels c1 kb)"
    using e1 r1 by (cases r1) (auto simp: enforce_path_def b remove_disallowed_obj)
  define k1 where "k1 = (case r1 of None \<Rightarrow> kb | Some c1 \<Rightarrow> dels c1 kb)"
  have i1': "i1 = JObj k1" using i1 by (simp add: k1_def)
  have sub: "map_of k1 k = Some v \<Longrightarrow> map_of kb k = Some v" for k v
    by (cases r1) (auto simp: k1_def dels_lookup split: if_splits)
  have get1: "map_of k1 ''get'' = map_of kb ''get''"
    by (cases r1) (auto simp: k1_def dels_lookup)
  from company_item_cases [OF c] obtain kc where kc: "c = JObj kc"
    and same: "\<forall>k. k \<noteq> ''parameters'' \<longrightarrow> map_of kc k = map_of k1 k"
    by (auto simp: i1')
  from e2 obtain r2 where r2: "path_capabilities self p (JObj kc) = Some r2"
    by (auto simp: enforce_path_def kc bind_eq_Some_conv)
  show ?thesis
  proof (cases r2)
    case None
    with e2 r2 show ?thesis by (simp add: enforce_path_def kc)
  next
    case (Some c2)
    with e2 r2 have i2: "i2 = JObj (dels c2 kc)"
      by (auto simp: enforce_path_def kc remove_disallowed_obj)
    have get: "map_of kc ''get'' = map_of kb ''get''" using same get1 by simp
    have patch: "map_of kc ''patch'' = None \<or> map_of kc ''patch'' = map_of kb ''patch''"
    proof (cases "map_of kc ''patch''")
      case None
      then show ?thesis ..
    next
      case (Some v)
      with same have "map_of k1 ''patch'' = Some v" by simp
      then have "map_of kb ''patch'' = Some v" by (rule sub)
      with Some show ?thesis by simp
    qed
    from r2 Some have "path_capabilities self p (JObj kc) = Some (Some c2)" by simp
    from caps_second [OF r1 this get patch sl] have "all_allowed c2 \<or> r1 = Some c2" .
    then have "dels c2 kc = kc"
    proof
      assume "all_allowed c2"
      then show ?thesis by (simp add: all_allowed_def dels_def)
    next
      assume "r1 = Some c2"
      then have k1: "k1 = dels c2 kb" by (simp add: k1_def)
      show ?thesis
      proof (rule dels_id)
        show "\<not> insertable c2 \<longrightarrow> map_of kc ''post'' = None" using same by (simp add: k1 dels_lookup)
        show "\<not> updatable c2 \<longrightarrow> map_of kc ''patch'' = None" using same by (simp add: k1 dels_lookup)
        show "\<not> deletable c2 \<longrightarrow> map_of kc ''delete'' = None" using same by (simp add: k1 dels_lookup)
      qed
    qed
    with i2 kc show ?thesis by simp
  qed
qed

lemma enforce_item_second_run:
  assumes "enforce_item self (p, b) = Some (p, i1)"
    and "company_item (p, i1) = Some (p, c)"
    and "startswith p ''/''"
  shows "enforce_item self (p, c) = None \<or> enforce_item self (p, c) = Some (p, c)"
proof (cases "edmx_capabilities self = []")
  case True
  then show ?thesis by (simp add: enforce_item_def)
next
  case False
  show ?thesis
  proof (cases "enforce_path self (p, c)")
    case None
    with False show ?thesis by (simp add: enforce_item_def)
  next
    case (Some y)
    then have "fst y = p" using enforce_item_fst [of self "(p, c)" y] False by (simp add: enforce_item_def)
    then obtain i2 where y: "y = (p, i2)" by (cases y) auto
    from assms(1) False have "enforce_path self (p, b) = Some (p, i1)" by (simp add: enforce_item_def)
    from enforce_path_second_run [OF this assms(2) Some [unfolded y] assms(3)] have "i2 = c" .
    with Some y False show ?thesis by (simp add: enforce_item_def)
  qed
qed


lemma second_run_items:
  assumes A: "list_all2 (\<lambda>x y. enforce_item self x = Some y) bs is"
    and B: "list_all2 (\<lambda>x y. company_item x = Some y) is cs"
    and C: "list_all2 (\<lambda>x y. enforce_item self x = Some y) cs rs"
    and sl: "\<forall>x \<in> set is. startswith (fst x) ''/''"
  shows "rs = cs"
proof (rule nth_equalityI)
  from C show "length rs = length cs" by (simp add: list_all2_lengthD)
next
  fix i assume i: "i < length rs"
  from A B C have len: "length bs = length is" "length is = length cs" "length cs = length rs"
    by (simp_all add: list_all2_lengthD)
  with i have ib: "i < length bs" "i < length is" "i < length cs" by simp_all
  have a: "enforce_item self (bs ! i) = Some (is ! i)" by (rule list_all2_nthD [OF A ib(1)])
  have b: "company_item (is ! i) = Some (cs ! i)" by (rule list_all2_nthD [OF B ib(2)])
  have c: "enforce_item self (cs ! i) = Some (rs ! i)" by (rule list_all2_nthD [OF C ib(3)])
  obtain p i1 where i1: "is ! i = (p, i1)" by (cases "is ! i")
  from enforce_item_fst [OF a] i1 obtain b0 where b0: "bs ! i = (p, b0)" by (cases "bs ! i") auto
  from company_item_fst [OF b] i1 obtain c0 where c0: "cs ! i = (p, c0)" by (cases "cs ! i") auto
  from i len have "is ! i \<in> set is" by simp
  with sl i1 have "startswith p ''/''" by force
  from enforce_item_second_run [OF a [unfolded b0 i1] b [unfolded i1 c0] this] c
  show "rs ! i = cs ! i" by (auto simp: c0)
qed

lemma filter_all_keys:
  "\<forall>k \<in> set (map fst xs). P k \<Longrightarrow> filter (\<lambda>(k, v). P k) xs = xs"
  by (induction xs) auto

lemma set_sections_schemas:
  assumes "set_sections txs opts spec = Some s0"
  shows "schema_names s0 = schema_names spec"
proof -
  from assms obtain kvs where spec: "spec = JObj kvs"
    by (cases spec) (auto simp: set_sections_def setitem_def)
  show ?thesis
    using assms unfolding spec set_sections_def
    by (auto simp: bind_eq_Some_conv update_conv' schema_names_def component_def
        split: if_splits dest!: setitem_SomeD getitem_SomeD)
qed

lemma define_company_parameter_schemas:
  assumes "define_company_parameter s0 = Some s1"
  shows "schema_names s1 = schema_names s0"
proof -
  from define_company_parameter_shape [OF assms] obtain kvs c ps where
    "s0 = JObj kvs" "map_of kvs ''components'' = Some (JObj c)"
    "s1 = JObj (AList.update ''components''
                  (JObj (AList.update ''parameters'' (JObj (AList.update ''company'' company_parameter ps)) c)) kvs)"
    by blast
  then show ?thesis by (simp add: schema_names_def component_def update_conv')
qed

lemma add_company_to_paths_schemas:
  assumes "add_company_to_paths (JObj kvs) = Some s1"
  shows "schema_names s1 = schema_names (JObj kvs)"
  using add_company_to_paths_shape [OF assms]
  by (auto simp: schema_names_def component_def update_conv')

lemma remove_navigation_paths_schemas:
  assumes "remove_navigation_paths (JObj kvs) = Some s'"
  shows "schema_names s' = schema_names (JObj kvs)"
  using remove_navigation_paths_paths [OF assms]
  by (auto simp: schema_names_def component_def update_conv')

lemma enforce_schemas:
  assumes "enforce_edmx_capabilities self (JObj kvs) = Some s'"
  shows "schema_names s' = schema_names (JObj kvs)"
  using enforce_paths [OF assms]
  by (auto simp: schema_names_def component_def update_conv')

lemma scrub_schema_fst: "scrub_schema x = Some y \<Longrightarrow> fst y = fst x"
  by (cases x) (auto simp: scrub_schema_def bind_eq_Some_conv split: if_splits json.splits)


lemma scrub_schemas:
  assumes "remove_system_fields_from_mutation_schemas (JObj kvs) = Some s'"
  shows "schema_names s' = schema_names (JObj kvs)"
proof (cases "map_of kvs ''components''")
  case None
  with assms show ?thesis by (auto simp: remove_system_fields_from_mutation_schemas_def)
next
  case (Some comps)
  show ?thesis
  proof (cases "py_in ''schemas'' comps")
    case None
    with Some assms show ?thesis by (auto simp: remove_system_fields_from_mutation_schemas_def)
  next
    case b: (Some b)
    show ?thesis
    proof (cases b)
      case False
      with b Some assms show ?thesis by (auto simp: remove_system_fields_from_mutation_schemas_def)
    next
      case True
      with b Some assms obtain schemas its its' comps' where
        g: "getitem comps ''schemas'' = Some schemas" and i: "items schemas = Some its"
        and t: "those (map scrub_schema its) = Some its'"
        and c': "setitem comps ''schemas'' (JObj its') = Some comps'"
        and s': "s' = JObj (AList.update ''components'' comps' kvs)"
        by (auto simp: remove_system_fields_from_mutation_schemas_def bind_eq_Some_conv)
      from g obtain c where comps: "comps = JObj c" and m: "map_of c ''schemas'' = Some schemas"
        by (auto dest: getitem_SomeD)
      from i have schemas: "schemas = JObj its" by (rule items_SomeD)
      from c' comps have comps': "comps' = JObj (AList.update ''schemas'' (JObj its') c)" by simp
      have "map fst its' = map fst its" using t by (rule those_list_all2_keys) (rule scrub_schema_fst)
      with Some comps m schemas s' comps' show ?thesis
        by (simp add: schema_names_def component_def update_conv')
    qed
  qed
qed

lemma map_fst_filter_keys: "map fst (filter (\<lambda>(k, v). P k) xs) = filter P (map fst xs)"
  by (induction xs) auto

lemma prune_schemas:
  assumes "remove_unused_schema_variants self (JObj kvs) = Some out"
    and "map_of kvs ''paths'' = Some (JObj ps)"
  shows "\<exists>a b. (schema_names (JObj kvs) \<noteq> [] \<longrightarrow>
              schemas_used_by ''post'' ps = Some a \<and> schemas_used_by ''patch'' ps = Some b)
           \<and> schema_names out = filter (\<lambda>n. \<not> schema_removed self a b n) (schema_names (JObj kvs))"
proof (cases "\<exists>c schemas. map_of kvs ''components'' = Some (JObj c) \<and> map_of c ''schemas'' = Some (JObj schemas)")
  case True
  then obtain c schemas where c: "map_of kvs ''components'' = Some (JObj c)"
    and sc: "map_of c ''schemas'' = Some (JObj schemas)" by blast
  from assms(1) prune_eq [OF assms(2) c sc, of self] obtain a b where
    a: "schemas_used_by ''post'' ps = Some a" and b: "schemas_used_by ''patch'' ps = Some b"
    and out: "out = JObj (AList.update ''components''
               (JObj (AList.update ''schemas''
                  (JObj (filter (\<lambda>(name, body). \<not> schema_removed self a b name) schemas)) c)) kvs)"
    by (auto split: option.splits)
  have "schema_names out = filter (\<lambda>n. \<not> schema_removed self a b n) (schema_names (JObj kvs))"
    by (simp add: out schema_names_def component_def update_conv' c sc map_fst_filter_keys)
  with a b show ?thesis by blast
next
  case False
  have names: "schema_names (JObj kvs) = []"
    using False by (auto simp: schema_names_def component_def split: option.splits json.splits)
  have "out = JObj kvs"
  proof (cases "map_of kvs ''components''")
    case None
    with assms show ?thesis by (simp add: remove_unused_schema_variants_def)
  next
    case (Some comps)
    show ?thesis
    proof (cases "py_in ''schemas'' comps")
      case None
      with Some assms show ?thesis by (simp add: remove_unused_schema_variants_def)
    next
      case b: (Some b)
      show ?thesis
      proof (cases b)
        case False
        with b Some assms show ?thesis by (simp add: remove_unused_schema_variants_def)
      next
        case True
        with b Some assms obtain schemas its where
          g: "getitem comps ''schemas'' = Some schemas" and i: "items schemas = Some its"
          by (auto simp: remove_unused_schema_variants_def bind_eq_Some_conv)
        from g obtain c where "comps = JObj c" "map_of c ''schemas'' = Some schemas"
          by (auto dest: getitem_SomeD)
        moreover from i have "schemas = JObj its" by (rule items_SomeD)
        ultimately show ?thesis using Some \<open>\<not> (\<exists>c schemas. map_of kvs ''components'' = Some (JObj c) \<and> map_of c ''schemas'' = Some (JObj schemas))\<close>
          by simp
      qed
    qed
  qed
  with names show ?thesis by simp
qed


lemma add_company_parameter_schemas:
  assumes "add_company_parameter s0 = Some s1"
  shows "schema_names s1 = schema_names s0"
proof -
  from assms obtain sm where a: "define_company_parameter s0 = Some sm"
    and b: "add_company_to_paths sm = Some s1"
    by (auto simp: add_company_parameter_def bind_eq_Some_conv)
  from define_company_parameter_shape [OF a] obtain km where sm: "sm = JObj km" by blast
  from add_company_to_paths_schemas [OF b [unfolded sm]] define_company_parameter_schemas [OF a] sm
  show ?thesis by simp
qed

lemma pipeline_run:
  assumes "enhance_openapi_spec txs self opts spec = Some out"
    and "getitem spec ''paths'' = Some (JObj ps)" and "distinct (map fst ps)"
  shows "\<exists>ps1 ps4 a b. those (map company_item ps) = Some ps1
           \<and> those (map (enforce_item self) (filter (\<lambda>(k, v). \<not> is_navigation_path k) ps1)) = Some ps4
           \<and> getitem out ''paths'' = Some (JObj ps4)
           \<and> (schema_names spec \<noteq> [] \<longrightarrow>
                schemas_used_by ''post'' ps4 = Some a \<and> schemas_used_by ''patch'' ps4 = Some b)
           \<and> schema_names out = filter (\<lambda>n. \<not> schema_removed self a b n) (schema_names spec)"
proof -
  from assms(1) obtain s0 s1 s2 s3 s4 where
    r0: "set_sections txs opts spec = Some s0" and r1: "add_company_parameter s0 = Some s1"
    and r2: "remove_navigation_paths s1 = Some s2"
    and r3: "remove_system_fields_from_mutation_schemas s2 = Some s3"
    and r4: "enforce_edmx_capabilities self s3 = Some s4"
    and r5: "remove_unused_schema_variants self s4 = Some out"
    by (auto simp: enhance_openapi_spec_def bind_eq_Some_conv)
  from set_sections_paths [OF r0] assms(2) have p0: "getitem s0 ''paths'' = Some (JObj ps)" by simp
  with add_company_paths [OF r1] assms(3) obtain ps1 where
    c: "those (map company_item ps) = Some ps1" and p1: "getitem s1 ''paths'' = Some (JObj ps1)"
    by blast
  from p1 obtain k1 where s1: "s1 = JObj k1" and m1: "map_of k1 ''paths'' = Some (JObj ps1)"
    by (auto dest: getitem_SomeD)
  let ?ps2 = "filter (\<lambda>(k, v). \<not> is_navigation_path k) ps1"
  from remove_navigation_paths_paths [OF r2 [unfolded s1]] m1
  obtain k2 where s2: "s2 = JObj k2" and m2: "map_of k2 ''paths'' = Some (JObj ?ps2)"
    by (auto simp: update_conv')
  from scrub_paths [OF r3 [unfolded s2]] m2
  obtain k3 where s3: "s3 = JObj k3" and m3: "map_of k3 ''paths'' = Some (JObj ?ps2)"
    by auto
  from enforce_paths [OF r4 [unfolded s3]] m3
  obtain k4 ps4 where s4: "s4 = JObj k4" and m4: "map_of k4 ''paths'' = Some (JObj ps4)"
    and e: "those (map (enforce_item self) ?ps2) = Some ps4"
    by (auto simp: update_conv' enforce_item_empty)
  from prune_paths [OF r5 [unfolded s4]] m4 have p5: "getitem out ''paths'' = Some (JObj ps4)"
    by auto
  have n0: "schema_names s0 = schema_names spec" using r0 by (rule set_sections_schemas)
  have n1: "schema_names s1 = schema_names s0" using r1 by (rule add_company_parameter_schemas)
  have n2: "schema_names s2 = schema_names s1"
    using remove_navigation_paths_schemas [OF r2 [unfolded s1]] by (simp add: s1)
  have n3: "schema_names s3 = schema_names s2"
    using scrub_schemas [OF r3 [unfolded s2]] by (simp add: s2)
  have n4: "schema_names s4 = schema_names s3"
    using enforce_schemas [OF r4 [unfolded s3]] by (simp add: s3)
  from n0 n1 n2 n3 n4 have n: "schema_names (JObj k4) = schema_names spec" by (simp add: s4)
  from prune_schemas [OF r5 [unfolded s4] m4] obtain a b where
    "schema_names (JObj k4) \<noteq> [] \<longrightarrow>
       schemas_used_by ''post'' ps4 = Some a \<and> schemas_used_by ''patch'' ps4 = Some b"
    and "schema_names out = filter (\<lambda>n. \<not> schema_removed self a b n) (schema_names (JObj k4))"
    by blast
  with n have u: "schema_names spec \<noteq> [] \<longrightarrow>
       schemas_used_by ''post'' ps4 = Some a \<and> schemas_used_by ''patch'' ps4 = Some b"
    and f: "schema_names out = filter (\<lambda>n. \<not> schema_removed self a b n) (schema_names spec)"
    by simp_all
  from c e p5 u f show ?thesis by blast
qed

lemma method_refs_company:
  assumes "company_item (p, a) = Some (p', c)" and "m \<noteq> ''parameters''"
  shows "method_refs m c = method_refs m a"
proof -
  from company_item_cases [OF assms(1)] show ?thesis
  proof
    assume "c = a" then show ?thesis by simp
  next
    assume "\<exists>ka kc. a = JObj ka \<and> c = JObj kc \<and> (\<forall>k. k \<noteq> ''parameters'' \<longrightarrow> map_of kc k = map_of ka k)"
    with assms(2) show ?thesis by (auto simp: method_refs_def)
  qed
qed

lemma schemas_used_by_company:
  assumes "those (map company_item xs) = Some ys" and "m \<noteq> ''parameters''"
  shows "schemas_used_by m ys = schemas_used_by m xs"
proof -
  from assms(1) have "list_all2 (\<lambda>x y. company_item x = Some y) xs ys" by (simp add: those_map_Some)
  then have "map (\<lambda>(path, path_obj). method_refs m path_obj) ys
      = map (\<lambda>(path, path_obj). method_refs m path_obj) xs"
  proof (induction rule: list_all2_induct)
    case Nil
    show ?case by simp
  next
    case (Cons x xs y ys)
    obtain p a where x: "x = (p, a)" by (cases x)
    obtain p' c where y: "y = (p', c)" by (cases y)
    from Cons(1) have "method_refs m c = method_refs m a"
      unfolding x y using assms(2) by (rule method_refs_company)
    with Cons.IH show ?case by (simp add: x y)
  qed
  then show ?thesis by (simp add: schemas_used_by_def)
qed


lemma second_run_item:
  assumes cA: "those (map company_item ps) = Some psA"
    and e1: "those (map (enforce_item self) (filter (\<lambda>(k, v). \<not> is_navigation_path k) psA)) = Some ps1"
    and cC: "those (map company_item ps1) = Some ps2"
    and m: "map_of ps1 p = Some item1"
  shows "\<exists>item2. map_of ps2 p = Some item2
          \<and> (\<forall>k. k \<noteq> ''parameters'' \<longrightarrow> getitem item2 k = getitem item1 k)
          \<and> (company_skipped p \<longrightarrow> item2 = item1)
          \<and> (\<not> company_skipped p \<longrightarrow>
                (\<exists>xs. getitem item1 ''parameters'' = Some (JArr (xs @ [company_ref]))
                   \<and> getitem item2 ''parameters'' = Some (JArr (xs @ [company_ref, company_ref]))))"
proof -
  have "\<exists>y. map_of ps2 p = Some y \<and> company_item (p, item1) = Some (p, y)"
    by (rule those_map_of_fwd [OF cC _ m]) (rule company_item_fst)
  then obtain item2 where m2: "map_of ps2 p = Some item2"
    and c2: "company_item (p, item1) = Some (p, item2)" by blast
  have "\<exists>x. map_of (filter (\<lambda>(k, v). \<not> is_navigation_path k) psA) p = Some x
      \<and> enforce_item self (p, x) = Some (p, item1)"
    by (rule those_map_of [OF e1 _ m]) (rule enforce_item_fst)
  then obtain x where mx: "map_of (filter (\<lambda>(k, v). \<not> is_navigation_path k) psA) p = Some x"
    and ex: "enforce_item self (p, x) = Some (p, item1)" by blast
  from mx have mx': "map_of psA p = Some x" by (simp add: map_of_filter_keys split: if_splits)
  have "\<exists>b. map_of ps p = Some b \<and> company_item (p, b) = Some (p, x)"
    by (rule those_map_of [OF cA _ mx']) (rule company_item_fst)
  then obtain b0 where c0: "company_item (p, b0) = Some (p, x)" by blast
  have par: "getitem item1 ''parameters'' = getitem x ''parameters''"
    using ex by (rule enforce_item_keeps) simp
  show ?thesis
  proof (cases "company_skipped p")
    case True
    with c2 have "item2 = item1" by (simp add: company_item_def)
    with m2 True show ?thesis by simp
  next
    case False
    with c0 have "add_company_to_path b0 = Some x" by (simp add: company_item_def)
    from add_company_to_path_parameters [OF this] obtain xs where
      "getitem x ''parameters'' = Some (JArr (xs @ [company_ref]))" by blast
    with par have p1: "getitem item1 ''parameters'' = Some (JArr (xs @ [company_ref]))" by simp
    from False c2 have "add_company_to_path item1 = Some item2" by (simp add: company_item_def)
    from add_company_to_path_parameters [OF this] p1
    have p2: "getitem item2 ''parameters'' = Some (JArr (xs @ [company_ref, company_ref]))"
      and k: "\<forall>k. k \<noteq> ''parameters'' \<longrightarrow> getitem item2 k = getitem item1 k"
      by auto
    from m2 False p1 p2 k show ?thesis by blast
  qed
qed

text \<open>
  C2, as the code has it. A second run on the output of a first (with the same capability
  mappings, whatever the options; every path name beginning with \<open>/\<close>) removes
  nothing more: the output has the same paths in the same order, every path item keeps
  all its entries other than \<open>parameters\<close>, and the schema map keeps the same names.
  It is no fixed point: parameter injection appends again. A path that starts with one of
  the skipped prefixes is unchanged; every other path, whose \<open>parameters\<close> array ends
  with the reference to the shared parameter after the first run, ends with two of them
  after the second.
\<close>

theorem second_run_appends_reference:
  assumes run1: "enhance_openapi_spec txs self opts spec = Some out"
    and run2: "enhance_openapi_spec txs' self opts' out = Some out2"
    and paths: "getitem spec ''paths'' = Some (JObj ps)" and d: "distinct (map fst ps)"
    and sl: "\<forall>p \<in> set (map fst ps). startswith p ''/''"
  shows "\<exists>ps1 ps2. getitem out ''paths'' = Some (JObj ps1) \<and> getitem out2 ''paths'' = Some (JObj ps2)
     \<and> map fst ps2 = map fst ps1
     \<and> (\<forall>p item1. map_of ps1 p = Some item1 \<longrightarrow>
          (\<exists>item2. map_of ps2 p = Some item2
             \<and> (\<forall>k. k \<noteq> ''parameters'' \<longrightarrow> getitem item2 k = getitem item1 k)
             \<and> (company_skipped p \<longrightarrow> item2 = item1)
             \<and> (\<not> company_skipped p \<longrightarrow>
                   (\<exists>xs. getitem item1 ''parameters'' = Some (JArr (xs @ [company_ref]))
                      \<and> getitem item2 ''parameters'' = Some (JArr (xs @ [company_ref, company_ref]))))))
     \<and> schema_names out2 = schema_names out"
proof -
  let ?F = "\<lambda>(k, v). \<not> is_navigation_path k"
  from pipeline_run [OF run1 paths d] obtain psA ps1 a1 b1 where
    cA: "those (map company_item ps) = Some psA"
    and e1: "those (map (enforce_item self) (filter ?F psA)) = Some ps1"
    and o1: "getitem out ''paths'' = Some (JObj ps1)"
    and u1: "schema_names spec \<noteq> [] \<longrightarrow>
                schemas_used_by ''post'' ps1 = Some a1 \<and> schemas_used_by ''patch'' ps1 = Some b1"
    and f1: "schema_names out = filter (\<lambda>n. \<not> schema_removed self a1 b1 n) (schema_names spec)"
    by blast
  have kA: "map fst psA = map fst ps"
    using cA by (rule those_list_all2_keys) (rule company_item_fst)
  have "map fst ps1 = map fst (filter ?F psA)"
    using e1 by (rule those_list_all2_keys) (rule enforce_item_fst)
  with kA have k1: "map fst ps1 = filter (\<lambda>k. \<not> is_navigation_path k) (map fst ps)"
    by (simp add: map_fst_filter_keys)
  from d have d1: "distinct (map fst ps1)" by (simp add: k1)
  from pipeline_run [OF run2 o1 d1] obtain psC ps2 a2 b2 where
    cC: "those (map company_item ps1) = Some psC"
    and e2: "those (map (enforce_item self) (filter ?F psC)) = Some ps2"
    and o2: "getitem out2 ''paths'' = Some (JObj ps2)"
    and u2: "schema_names out \<noteq> [] \<longrightarrow>
                schemas_used_by ''post'' ps2 = Some a2 \<and> schemas_used_by ''patch'' ps2 = Some b2"
    and f2: "schema_names out2 = filter (\<lambda>n. \<not> schema_removed self a2 b2 n) (schema_names out)"
    by blast
  have kC: "map fst psC = map fst ps1"
    using cC by (rule those_list_all2_keys) (rule company_item_fst)
  have "\<forall>k \<in> set (map fst psC). \<not> is_navigation_path k" by (simp add: kC k1)
  then have "filter ?F psC = psC" by (rule filter_all_keys)
  with e2 have e2': "those (map (enforce_item self) psC) = Some ps2" by simp
  have A: "list_all2 (\<lambda>x y. enforce_item self x = Some y) (filter ?F psA) ps1"
    using e1 by (simp add: those_map_Some)
  have B: "list_all2 (\<lambda>x y. company_item x = Some y) ps1 psC"
    using cC by (simp add: those_map_Some)
  have C: "list_all2 (\<lambda>x y. enforce_item self x = Some y) psC ps2"
    using e2' by (simp add: those_map_Some)
  have sl1: "\<forall>x \<in> set ps1. startswith (fst x) ''/''"
  proof
    fix x assume "x \<in> set ps1"
    then have "fst x \<in> set (map fst ps1)" by simp
    then have "fst x \<in> set (map fst ps)" by (simp add: k1)
    with sl show "startswith (fst x) ''/''" by blast
  qed
  from second_run_items [OF A B C sl1] have eq: "ps2 = psC" .
  have keys: "map fst ps2 = map fst ps1" by (simp add: eq kC)
  have items: "\<forall>p item1. map_of ps1 p = Some item1 \<longrightarrow>
          (\<exists>item2. map_of ps2 p = Some item2
             \<and> (\<forall>k. k \<noteq> ''parameters'' \<longrightarrow> getitem item2 k = getitem item1 k)
             \<and> (company_skipped p \<longrightarrow> item2 = item1)
             \<and> (\<not> company_skipped p \<longrightarrow>
                   (\<exists>xs. getitem item1 ''parameters'' = Some (JArr (xs @ [company_ref]))
                      \<and> getitem item2 ''parameters'' = Some (JArr (xs @ [company_ref, company_ref])))))"
    using second_run_item [OF cA e1 cC [folded eq]] by blast
  have names: "schema_names out2 = schema_names out"
  proof (cases "schema_names out = []")
    case True
    with f2 show ?thesis by simp
  next
    case False
    with f1 have "schema_names spec \<noteq> []" by auto
    with u1 have a1: "schemas_used_by ''post'' ps1 = Some a1"
      and b1: "schemas_used_by ''patch'' ps1 = Some b1" by simp_all
    from False u2 have a2: "schemas_used_by ''post'' ps2 = Some a2"
      and b2: "schemas_used_by ''patch'' ps2 = Some b2" by simp_all
    have "schemas_used_by ''post'' ps2 = schemas_used_by ''post'' ps1"
      using cC [folded eq] by (rule schemas_used_by_company) simp
    with a1 a2 have "a2 = a1" by simp
    have "schemas_used_by ''patch'' ps2 = schemas_used_by ''patch'' ps1"
      using cC [folded eq] by (rule schemas_used_by_company) simp
    with b1 b2 have "b2 = b1" by simp
    from f2 show ?thesis unfolding \<open>a2 = a1\<close> \<open>b2 = b1\<close> by (subst (asm) f1) (simp add: f1)
  qed
  from o1 o2 keys items names show ?thesis by blast
qed

lemma example_rerun_company_items:
  "those (map company_item example_out_paths) = Some example_rerun_paths"
  by (simp add: example_out_paths_def example_rerun_paths_def company_item_def example_skipped
      add_company_to_path_def list_append_def)

lemma example_rerun_enforce_items:
  "those (map (enforce_item scenario_self)
       (filter (\<lambda>(k, v). \<not> is_navigation_path k) example_rerun_paths)) = Some example_rerun_paths"
  by (simp add: example_rerun_paths_def example_navigation enforce_item_def scenario_self_nonempty
      enforce_path_def remove_disallowed_def scenario_path_capabilities example_path_capabilities
      remove_method_def delitem_def)

lemma example_rerun:
  assumes "map_of kvs ''paths'' = Some (JObj example_out_paths)"
    and "map_of kvs ''components'' = Some (JObj c)"
    and "component kvs ''schemas'' = None"
    and "component kvs ''parameters'' = Some (JObj p)"
  shows "\<exists>kvs'. enhance_openapi_spec txs scenario_self opts (JObj kvs) = Some (JObj kvs')
      \<and> map_of kvs' ''paths'' = Some (JObj example_rerun_paths)"
proof -
  have d: "distinct (map fst example_out_paths)" by (simp add: example_out_paths_def)
  from assms(2) have c: "map_of kvs ''components'' = None \<or> (\<exists>c. map_of kvs ''components'' = Some (JObj c))"
    by blast
  from assms(4) have p: "component kvs ''parameters'' = None \<or> (\<exists>p. component kvs ''parameters'' = Some (JObj p))"
    by blast
  from enhance_returns [OF assms(1) d c assms(3) p example_rerun_company_items example_rerun_enforce_items]
  show ?thesis by blast
qed

lemma example_two_runs:
  "\<exists>k1 k2. enhance_openapi_spec txs scenario_self opts example_document = Some (JObj k1)
      \<and> map_of k1 ''paths'' = Some (JObj example_out_paths)
      \<and> enhance_openapi_spec txs scenario_self opts (JObj k1) = Some (JObj k2)
      \<and> map_of k2 ''paths'' = Some (JObj example_rerun_paths)"
proof -
  from example_run [of txs opts] obtain k1 c1 p1 where
    r1: "enhance_openapi_spec txs scenario_self opts example_document = Some (JObj k1)"
    and f: "map_of k1 ''paths'' = Some (JObj example_out_paths)"
      "map_of k1 ''components'' = Some (JObj c1)"
      "component k1 ''schemas'' = None"
      "component k1 ''parameters'' = Some (JObj p1)"
    by blast
  from example_rerun [OF f, of txs opts] r1 f(1) show ?thesis by blast
qed

theorem second_run_appends_reference_witness:
  "\<exists>out out2 ps2. enhance_openapi_spec plain_texts scenario_self no_options example_document = Some out
     \<and> enhance_openapi_spec plain_texts scenario_self no_options out = Some out2
     \<and> getitem out2 ''paths'' = Some (JObj ps2)
     \<and> map fst ps2 = [''/companies({id})/Items({id})'', ''/items'', ''/orders'']"
proof -
  from example_two_runs [of plain_texts no_options] obtain k1 k2 where
    r1: "enhance_openapi_spec plain_texts scenario_self no_options example_document = Some (JObj k1)"
    and o1: "getitem (JObj k1) ''paths'' = Some (JObj example_out_paths)"
    and r2: "enhance_openapi_spec plain_texts scenario_self no_options (JObj k1) = Some (JObj k2)"
    by auto
  have p: "getitem example_document ''paths'' = Some (JObj example_paths)"
    by (simp add: example_document_def)
  have d: "distinct (map fst example_paths)"
    by (simp add: example_paths_def)
  have sl: "\<forall>p \<in> set (map fst example_paths). startswith p ''/''"
    by (simp add: example_paths_def startswith_def)
  from second_run_appends_reference [OF r1 r2 p d sl] o1 obtain ps2 where
    "getitem (JObj k2) ''paths'' = Some (JObj ps2)" and "map fst ps2 = map fst example_out_paths"
    by auto
  then have g: "getitem (JObj k2) ''paths'' = Some (JObj ps2)"
    and k: "map fst ps2 = [''/companies({id})/Items({id})'', ''/items'', ''/orders'']"
    by (simp_all add: example_out_paths_def)
  show ?thesis
    by (rule exI [of _ "JObj k1"], rule exI [of _ "JObj k2"], rule exI [of _ ps2])
      (intro conjI r1 r2 g k)
qed

text \<open>
  C2 as stated fails on the example: the second run gives another document than the
  first; \<open>/orders\<close> has one reference to the shared parameter after the first run
  and two after the second.
\<close>

theorem second_run_counterexample:
  "\<exists>out out2 ps1 ps2 a b.
       enhance_openapi_spec plain_texts scenario_self no_options example_document = Some out
     \<and> enhance_openapi_spec plain_texts scenario_self no_options out = Some out2
     \<and> out2 \<noteq> out
     \<and> getitem out ''paths'' = Some (JObj ps1) \<and> map_of ps1 ''/orders'' = Some a \<and> company_refs a = 1
     \<and> getitem out2 ''paths'' = Some (JObj ps2) \<and> map_of ps2 ''/orders'' = Some b \<and> company_refs b = 2"
proof -
  from example_two_runs [of plain_texts no_options] obtain k1 k2 where
    r1: "enhance_openapi_spec plain_texts scenario_self no_options example_document = Some (JObj k1)"
    and o1: "getitem (JObj k1) ''paths'' = Some (JObj example_out_paths)"
    and r2: "enhance_openapi_spec plain_texts scenario_self no_options (JObj k1) = Some (JObj k2)"
    and o2: "getitem (JObj k2) ''paths'' = Some (JObj example_rerun_paths)"
    by auto
  have a: "map_of example_out_paths ''/orders''
      = Some (JObj [(''get'', JObj []), (''delete'', JObj []), (''parameters'', JArr [company_ref])])"
    by (simp add: example_out_paths_def)
  have a1: "company_refs (JObj [(''get'', JObj []), (''delete'', JObj []),
      (''parameters'', JArr [company_ref])]) = 1"
    by (simp add: company_refs_def)
  have b: "map_of example_rerun_paths ''/orders''
      = Some (JObj [(''get'', JObj []), (''delete'', JObj []),
                    (''parameters'', JArr [company_ref, company_ref])])"
    by (simp add: example_rerun_paths_def)
  have b2: "company_refs (JObj [(''get'', JObj []), (''delete'', JObj []),
      (''parameters'', JArr [company_ref, company_ref])]) = 2"
    by (simp add: company_refs_def)
  have "example_rerun_paths \<noteq> example_out_paths"
    by (simp add: example_rerun_paths_def example_out_paths_def)
  with o1 o2 have ne: "JObj k2 \<noteq> JObj k1" by auto
  from r1 r2 ne o1 a a1 o2 b b2 show ?thesis by blast
qed

end
